theory Spec2Isabelle
  imports Main "HOL-Library.Word"
begin

section \<open>Storage model\<close>

text \<open>
  The container of \<^verbatim>\<open>fast_vector.h\<close> keeps its elements in a region obtained from
  \<^verbatim>\<open>malloc\<close>/\<^verbatim>\<open>realloc\<close>. A region is a list of slots; a slot is raw storage or holds a
  live object. The heap is the list of all regions ever allocated (a released region is
  \<open>None\<close>), so a fresh allocation never coincides with an older one. Regions are counted
  in slots of \<open>T\<close> (the byte count \<^verbatim>\<open>sizeof(T) * n\<close> is not computed), and an allocation
  request is always granted: the assertions on a null result of \<^verbatim>\<open>malloc\<close> and
  \<^verbatim>\<open>realloc\<close> never fail here.

  \<^verbatim>\<open>size_type\<close> is \<^verbatim>\<open>std::size_t\<close>, taken as 64 bits wide: its arithmetic wraps around.
\<close>

type_synonym size_type = "64 word"

datatype 'a cell = Raw | Obj 'a

text \<open>
  A pointer \<open>Ptr b i\<close> designates slot \<open>i\<close> of region \<open>b\<close>; \<open>Addr a\<close> is an address
  outside every region, \<open>Addr 0\<close> being \<^verbatim>\<open>nullptr\<close>.
\<close>

datatype ptr = Addr nat | Ptr nat nat

type_synonym 'a heap = "'a cell list option list"

text \<open>
  The ways an operation can end other than by returning: the exception thrown by
  \<^verbatim>\<open>at\<close>, a failed \<^verbatim>\<open>assert\<close> (which aborts), and the undefined behaviours of the
  storage model (an access outside a region, the use of a slot that holds no live
  object, a release of something that is not a region).
\<close>

datatype error =
    Range_error
  | Assert_position
  | Assert_empty
  | Assert_capacity
  | Bad_access
  | Not_alive
  | Bad_free

fun catchable :: "error \<Rightarrow> bool" where
  "catchable Range_error = True"
| "catchable _ = False"

abbreviation nullptr :: ptr where
  "nullptr \<equiv> Addr 0"

fun ptr_add :: "ptr \<Rightarrow> nat \<Rightarrow> ptr" where
  "ptr_add (Addr a) n = Addr (a + n)"
| "ptr_add (Ptr b i) n = Ptr b (i + n)"

text \<open>\<^verbatim>\<open>p < q\<close> on pointers: meaningful inside one region.\<close>

fun ptr_less :: "ptr \<Rightarrow> ptr \<Rightarrow> bool" where
  "ptr_less (Ptr b i) (Ptr c j) = (b = c \<and> i < j)"
| "ptr_less (Addr a) (Addr c) = (a < c)"
| "ptr_less _ _ = False"

definition block :: "'a heap \<Rightarrow> nat \<Rightarrow> 'a cell list option" where
  "block h b = (if b < length h then h ! b else None)"

fun load :: "'a heap \<Rightarrow> ptr \<Rightarrow> error + 'a cell" where
  "load h (Addr a) = Inl Bad_access"
| "load h (Ptr b i) =
     (case block h b of
        None \<Rightarrow> Inl Bad_access
      | Some cs \<Rightarrow> if i < length cs then Inr (cs ! i) else Inl Bad_access)"

fun store :: "'a heap \<Rightarrow> ptr \<Rightarrow> 'a cell \<Rightarrow> error + 'a heap" where
  "store h (Addr a) c = Inl Bad_access"
| "store h (Ptr b i) c =
     (case block h b of
        None \<Rightarrow> Inl Bad_access
      | Some cs \<Rightarrow> if i < length cs then Inr (h[b := Some (cs[i := c])]) else Inl Bad_access)"

text \<open>Reading \<^verbatim>\<open>*p\<close>, \<^verbatim>\<open>new (p) T(x)\<close> (and \<^verbatim>\<open>*p = x\<close> for trivial \<open>T\<close>), \<^verbatim>\<open>p->~T()\<close>.\<close>

definition deref :: "'a heap \<Rightarrow> ptr \<Rightarrow> error + 'a" where
  "deref h p =
     (case load h p of
        Inl e \<Rightarrow> Inl e
      | Inr Raw \<Rightarrow> Inl Not_alive
      | Inr (Obj x) \<Rightarrow> Inr x)"

definition construct :: "'a heap \<Rightarrow> ptr \<Rightarrow> 'a \<Rightarrow> error + 'a heap" where
  "construct h p x = store h p (Obj x)"

definition destroy :: "'a heap \<Rightarrow> ptr \<Rightarrow> error + 'a heap" where
  "destroy h p =
     (case load h p of
        Inl e \<Rightarrow> Inl e
      | Inr Raw \<Rightarrow> Inl Not_alive
      | Inr (Obj x) \<Rightarrow> store h p Raw)"

subsection \<open>The allocator\<close>

definition malloc :: "nat \<Rightarrow> 'a heap \<Rightarrow> ptr \<times> 'a heap" where
  "malloc n h = (Ptr (length h) 0, h @ [Some (replicate n Raw)])"

fun free :: "ptr \<Rightarrow> 'a heap \<Rightarrow> error + 'a heap" where
  "free (Addr a) h = (if a = 0 then Inr h else Inl Bad_free)"
| "free (Ptr b i) h =
     (case block h b of
        None \<Rightarrow> Inl Bad_free
      | Some cs \<Rightarrow> if i = 0 then Inr (h[b := None]) else Inl Bad_free)"

text \<open>
  \<^verbatim>\<open>realloc\<close> keeps the first \<open>min old new\<close> slots; the model always moves the region,
  which is the case in which a stale pointer shows.
\<close>

fun realloc :: "ptr \<Rightarrow> nat \<Rightarrow> 'a heap \<Rightarrow> error + ptr \<times> 'a heap" where
  "realloc (Addr a) n h = (if a = 0 then Inr (malloc n h) else Inl Bad_free)"
| "realloc (Ptr b i) n h =
     (case block h b of
        None \<Rightarrow> Inl Bad_free
      | Some cs \<Rightarrow>
          if i = 0
          then Inr (Ptr (length h) 0,
                    h[b := None] @ [Some (take n cs @ replicate (n - length cs) Raw)])
          else Inl Bad_free)"

text \<open>
  \<^verbatim>\<open>memcpy\<close> of \<open>n\<close> slots, copied one by one in ascending order, the slots taken as they
  are (raw or live). The order matters only where source and destination overlap, which
  C leaves undefined and \<^verbatim>\<open>erase\<close> relies on.
\<close>

fun memcpy :: "ptr \<Rightarrow> ptr \<Rightarrow> nat \<Rightarrow> 'a heap \<Rightarrow> error + 'a heap" where
  "memcpy dest src 0 h = Inr h"
| "memcpy dest src (Suc n) h =
     (case load h src of
        Inl e \<Rightarrow> Inl e
      | Inr c \<Rightarrow>
          (case store h dest c of
             Inl e \<Rightarrow> Inl e
           | Inr h' \<Rightarrow> memcpy (ptr_add dest 1) (ptr_add src 1) n h'))"

section \<open>The container\<close>

record fast_vector =
  m_data :: ptr
  m_size :: size_type
  m_capacity :: size_type

definition fast_vector_default :: fast_vector where
  "fast_vector_default = \<lparr>m_data = nullptr, m_size = 0, m_capacity = 0\<rparr>"

definition grow_factor :: size_type where
  "grow_factor = 2"

definition size_fv :: "fast_vector \<Rightarrow> size_type" where
  "size_fv v = m_size v"

definition capacity :: "fast_vector \<Rightarrow> size_type" where
  "capacity v = m_capacity v"

definition begin_fv :: "fast_vector \<Rightarrow> ptr" where
  "begin_fv v = m_data v"

definition end_fv :: "fast_vector \<Rightarrow> ptr" where
  "end_fv v = ptr_add (m_data v) (unat (m_size v))"

text \<open>What lies between \<^verbatim>\<open>begin()\<close> and \<^verbatim>\<open>end()\<close>, slot by slot.\<close>

definition region :: "'a heap \<Rightarrow> ptr \<Rightarrow> 'a cell list" where
  "region h p =
     (case p of
        Addr a \<Rightarrow> []
      | Ptr b i \<Rightarrow> (case block h b of None \<Rightarrow> [] | Some cs \<Rightarrow> drop i cs))"

definition elements :: "'a heap \<Rightarrow> fast_vector \<Rightarrow> 'a cell list" where
  "elements h v = take (unat (size_fv v)) (region h (begin_fv v))"

text \<open>
  The invariant of the data model: no region and no elements, or a region of exactly
  \<open>capacity\<close> slots whose first \<open>size\<close> slots hold live objects.
\<close>

definition well_formed :: "'a heap \<Rightarrow> fast_vector \<Rightarrow> bool" where
  "well_formed h v =
     (case m_data v of
        Addr a \<Rightarrow> a = 0 \<and> m_size v = 0 \<and> m_capacity v = 0
      | Ptr b i \<Rightarrow>
          i = 0 \<and>
          (case block h b of
             None \<Rightarrow> False
           | Some cs \<Rightarrow>
               length cs = unat (m_capacity v) \<and> m_size v \<le> m_capacity v \<and>
               list_all (\<lambda>c. c \<noteq> Raw) (take (unat (m_size v)) cs)))"

subsection \<open>Element access\<close>

definition subscript :: "'a heap \<Rightarrow> fast_vector \<Rightarrow> size_type \<Rightarrow> error + 'a" where
  "subscript h v pos =
     (if pos < m_size v then deref h (ptr_add (m_data v) (unat pos))
      else Inl Assert_position)"

definition at_fv :: "'a heap \<Rightarrow> fast_vector \<Rightarrow> size_type \<Rightarrow> error + 'a" where
  "at_fv h v pos =
     (if pos \<ge> m_size v then Inl Range_error else subscript h v pos)"

subsection \<open>Arithmetic of \<open>size_type\<close>\<close>

lemma unat_size_bound: "unat (n :: size_type) < 2 ^ 64"
  using unsigned_less [of n, where 'a = nat] by simp

lemma unat_succ:
  fixes i c :: size_type
  assumes "i < c"
  shows "unat (i + 1) = Suc (unat i)"
proof -
  from assms have "unat i < unat c" by (simp add: word_less_nat_alt)
  with unat_size_bound [of c] have "unat i + unat (1 :: size_type) < 2 ^ LENGTH(64)"
    by simp
  then have "unat (i + 1) = unat i + unat (1 :: size_type)"
    by (simp only: unat_add_lem)
  then show ?thesis by simp
qed

subsection \<open>Sequencing of fallible steps\<close>

definition and_then :: "error + 'a \<Rightarrow> ('a \<Rightarrow> error + 'b) \<Rightarrow> error + 'b" where
  "and_then m f = (case m of Inl e \<Rightarrow> Inl e | Inr x \<Rightarrow> f x)"

lemma and_then_simps [simp]:
  "and_then (Inl e) f = Inl e"
  "and_then (Inr x) f = f x"
  by (simp_all add: and_then_def)

lemma and_then_cong [fundef_cong]:
  "m = m' \<Longrightarrow> (\<And>x. m' = Inr x \<Longrightarrow> f x = f' x) \<Longrightarrow> and_then m f = and_then m' f'"
  by (cases m') (simp_all add: and_then_def)

lemma and_then_eq_Inr:
  "and_then m f = Inr y \<longleftrightarrow> (\<exists>x. m = Inr x \<and> f x = Inr y)"
  by (cases m) simp_all

subsection \<open>The helper loops\<close>

text \<open>
  Each helper walks a pointer up to \<open>end_p\<close>. A walk that leaves the region it started
  in ends with \<open>Bad_access\<close> at the first slot outside, so every loop terminates; the
  number of slots left in the region bounds the number of iterations.
\<close>

definition room :: "'a heap \<Rightarrow> ptr \<Rightarrow> nat" where
  "room h p = length (region h p)"

lemma store_block_length:
  "store h q c = Inr h' \<Longrightarrow> map_option length (block h' b) = map_option length (block h b)"
  by (cases q) (auto simp: block_def nth_list_update split: option.splits if_splits)

lemma store_room: "store h q c = Inr h' \<Longrightarrow> room h' p = room h p"
proof (cases p)
  case (Ptr b i)
  assume "store h q c = Inr h'"
  from store_block_length [OF this, of b] Ptr show ?thesis
    by (auto simp: room_def region_def split: option.splits)
qed (simp add: room_def region_def)

lemma load_room: "load h p = Inr c \<Longrightarrow> room h (ptr_add p 1) < room h p"
  by (cases p) (auto simp: room_def region_def split: option.splits if_splits)

lemma store_room_less: "store h p c = Inr h' \<Longrightarrow> room h' (ptr_add p 1) < room h p"
proof -
  assume s: "store h p c = Inr h'"
  then have "room h' (ptr_add p 1) = room h (ptr_add p 1)" by (rule store_room)
  moreover from s have "room h (ptr_add p 1) < room h p"
    by (cases p) (auto simp: room_def region_def split: option.splits if_splits)
  ultimately show ?thesis by simp
qed

lemma deref_room: "deref h p = Inr x \<Longrightarrow> room h (ptr_add p 1) < room h p"
  by (auto simp: deref_def split: sum.splits cell.splits dest: load_room)

lemma destroy_room_less: "destroy h p = Inr h' \<Longrightarrow> room h' (ptr_add p 1) < room h p"
  by (auto simp: destroy_def split: sum.splits cell.splits dest: store_room_less)

function construct_range :: "'a \<Rightarrow> ptr \<Rightarrow> ptr \<Rightarrow> 'a heap \<Rightarrow> error + 'a heap" where
  "construct_range dflt begin_p end_p h =
     (if begin_p \<noteq> end_p
      then and_then (construct h begin_p dflt)
             (\<lambda>h'. construct_range dflt (ptr_add begin_p 1) end_p h')
      else Inr h)"
  by pat_completeness auto
termination
  by (relation "measure (\<lambda>(d, b, e, h). room h b)")
     (auto simp: construct_def dest: store_room_less)

function copy_range :: "ptr \<Rightarrow> ptr \<Rightarrow> ptr \<Rightarrow> 'a heap \<Rightarrow> error + 'a heap" where
  "copy_range begin_p end_p dest h =
     (if begin_p \<noteq> end_p
      then and_then (deref h begin_p)
             (\<lambda>x. and_then (construct h dest x)
                (\<lambda>h'. copy_range (ptr_add begin_p 1) end_p (ptr_add dest 1) h'))
      else Inr h)"
  by pat_completeness auto
termination
  by (relation "measure (\<lambda>(b, e, d, h). room h b)")
     (auto simp: construct_def store_room dest: deref_room)

function find_item :: "ptr \<Rightarrow> ptr \<Rightarrow> 'a \<Rightarrow> 'a heap \<Rightarrow> error + ptr" where
  "find_item begin_p end_p val h =
     (if begin_p \<noteq> end_p
      then and_then (deref h begin_p)
             (\<lambda>x. if x = val then Inr begin_p
                  else find_item (ptr_add begin_p 1) end_p val h)
      else Inr end_p)"
  by pat_completeness auto
termination
  by (relation "measure (\<lambda>(b, e, x, h). room h b)") (auto dest: deref_room)

function destruct_range :: "ptr \<Rightarrow> ptr \<Rightarrow> 'a heap \<Rightarrow> error + 'a heap" where
  "destruct_range begin_p end_p h =
     (if begin_p \<noteq> end_p
      then and_then (destroy h begin_p)
             (\<lambda>h'. destruct_range (ptr_add begin_p 1) end_p h')
      else Inr h)"
  by pat_completeness auto
termination
  by (relation "measure (\<lambda>(b, e, h). room h b)") (auto dest: destroy_room_less)

declare construct_range.simps [simp del] copy_range.simps [simp del]
  find_item.simps [simp del] destruct_range.simps [simp del]

subsection \<open>Special member functions\<close>

text \<open>
  \<open>triv\<close> is \<^verbatim>\<open>std::is_trivial_v<T>\<close>, fixed by the element type; it selects the branch
  of every \<^verbatim>\<open>if constexpr\<close>. An operation on one buffer takes and returns the heap and
  the buffer's fields; one with a second buffer \<open>other\<close> takes that as a separate object.
\<close>

type_synonym 'a state = "'a heap \<times> fast_vector"

definition copy_ctor :: "bool \<Rightarrow> fast_vector \<Rightarrow> 'a heap \<Rightarrow> error + 'a state" where
  "copy_ctor triv other h =
     (let this = \<lparr>m_data = nullptr, m_size = m_size other, m_capacity = m_size other\<rparr>
      in case malloc (unat (m_size this)) h of
           (p, h1) \<Rightarrow>
             (let this = this\<lparr>m_data := p\<rparr>
              in and_then
                   (if triv then memcpy (m_data this) (m_data other) (unat (m_size this)) h1
                    else copy_range (begin_fv other) (end_fv other) (m_data this) h1)
                   (\<lambda>h2. Inr (h2, this))))"

definition move_ctor :: "fast_vector \<Rightarrow> fast_vector \<times> fast_vector" where
  "move_ctor other =
     (\<lparr>m_data = m_data other, m_size = m_size other, m_capacity = m_capacity other\<rparr>,
      other\<lparr>m_data := nullptr\<rparr>)"

definition copy_assign ::
  "bool \<Rightarrow> fast_vector \<Rightarrow> fast_vector \<Rightarrow> 'a heap \<Rightarrow> error + 'a state" where
  "copy_assign triv this other h =
     (let this = this\<lparr>m_size := m_size other\<rparr>;
          this = this\<lparr>m_capacity := m_size other\<rparr>
      in case malloc (unat (m_size this)) h of
           (p, h1) \<Rightarrow>
             (let this = this\<lparr>m_data := p\<rparr>
              in and_then
                   (if triv then memcpy (m_data this) (m_data other) (unat (m_size this)) h1
                    else copy_range (begin_fv other) (end_fv other) (m_data this) h1)
                   (\<lambda>h2. Inr (h2, this))))"

definition move_assign :: "fast_vector \<Rightarrow> fast_vector \<Rightarrow> fast_vector \<times> fast_vector" where
  "move_assign this other =
     (this\<lparr>m_data := m_data other, m_size := m_size other, m_capacity := m_size other\<rparr>,
      other\<lparr>m_data := nullptr\<rparr>)"

definition destructor :: "bool \<Rightarrow> 'a state \<Rightarrow> error + 'a heap" where
  "destructor triv s =
     (case s of
        (h, v) \<Rightarrow>
          if m_data v \<noteq> nullptr
          then and_then
                 (if \<not> triv then destruct_range (begin_fv v) (end_fv v) h else Inr h)
                 (\<lambda>h1. free (m_data v) h1)
          else Inr h)"

subsection \<open>Capacity\<close>

definition reserve :: "bool \<Rightarrow> size_type \<Rightarrow> 'a state \<Rightarrow> error + 'a state" where
  "reserve triv new_cap s =
     (case s of
        (h, v) \<Rightarrow>
          if \<not> new_cap > m_capacity v then Inl Assert_capacity
          else if triv
          then and_then (realloc (m_data v) (unat new_cap) h)
                 (\<lambda>(p, h1). Inr (h1, v\<lparr>m_data := p, m_capacity := new_cap\<rparr>))
          else
            (case malloc (unat new_cap) h of
               (new_data_location, h1) \<Rightarrow>
                 and_then (copy_range (begin_fv v) (end_fv v) new_data_location h1)
                   (\<lambda>h2. and_then (destruct_range (begin_fv v) (end_fv v) h2)
                      (\<lambda>h3. and_then (free (m_data v) h3)
                         (\<lambda>h4. Inr (h4, v\<lparr>m_data := new_data_location,
                                           m_capacity := new_cap\<rparr>))))))"

definition shrink_to_fit :: "bool \<Rightarrow> 'a state \<Rightarrow> error + 'a state" where
  "shrink_to_fit triv s =
     (case s of
        (h, v) \<Rightarrow>
          if m_size v \<noteq> 0 \<and> m_size v < m_capacity v
          then if triv
            then and_then (realloc (m_data v) (unat (m_size v)) h)
                   (\<lambda>(p, h1). Inr (h1, v\<lparr>m_data := p\<rparr>))
            else
              (case malloc (unat (m_size v)) h of
                 (new_data_location, h1) \<Rightarrow>
                   and_then (copy_range (begin_fv v) (end_fv v) new_data_location h1)
                     (\<lambda>h2. and_then (destruct_range (begin_fv v) (end_fv v) h2)
                        (\<lambda>h3. and_then (free (m_data v) h3)
                           (\<lambda>h4. Inr (h4, v\<lparr>m_data := new_data_location\<rparr>)))))
          else Inr (h, v))"

subsection \<open>Modifiers\<close>

text \<open>
  \<^verbatim>\<open>push_back\<close> takes its argument as a value: the reference the source passes is to an
  object outside the buffer's own region. Its two overloads differ only in copying or
  moving that object into the slot, which is the same value here.
\<close>

definition push_back :: "bool \<Rightarrow> 'a \<Rightarrow> 'a state \<Rightarrow> error + 'a state" where
  "push_back triv val s =
     and_then
       (if m_size (snd s) = m_capacity (snd s)
        then reserve triv (m_capacity (snd s) * grow_factor + 1) s
        else Inr s)
       (\<lambda>(h, v).
          and_then
            (if triv then store h (ptr_add (m_data v) (unat (m_size v))) (Obj val)
             else construct h (ptr_add (m_data v) (unat (m_size v))) val)
            (\<lambda>h1. Inr (h1, v\<lparr>m_size := m_size v + 1\<rparr>)))"

text \<open>
  \<^verbatim>\<open>emplace_back\<close> is rejected at compile time for a trivial \<open>T\<close>; \<open>val\<close> is the object its
  arguments construct.
\<close>

definition emplace_back :: "'a \<Rightarrow> 'a state \<Rightarrow> error + 'a state" where
  "emplace_back val s =
     and_then
       (if m_size (snd s) = m_capacity (snd s)
        then reserve False (m_capacity (snd s) * grow_factor + 1) s
        else Inr s)
       (\<lambda>(h, v).
          and_then (construct h (ptr_add (m_data v) (unat (m_size v))) val)
            (\<lambda>h1. Inr (h1, v\<lparr>m_size := m_size v + 1\<rparr>)))"

text \<open>
  The array \<open>values\<close> that \<^verbatim>\<open>append\<close> reads is a region of the heap like any other;
  \<open>append_loop\<close> is the \<^verbatim>\<open>for\<close> loop of its first branch.
\<close>

function append_loop ::
  "bool \<Rightarrow> ptr \<Rightarrow> size_type \<Rightarrow> size_type \<Rightarrow> 'a state \<Rightarrow> error + 'a state" where
  "append_loop triv values i count s =
     (if i < count
      then and_then (deref (fst s) (ptr_add values (unat i)))
             (\<lambda>x. and_then (push_back triv x s)
                (\<lambda>s'. append_loop triv values (i + 1) count s'))
      else Inr s)"
  by pat_completeness auto
termination
proof (relation "measure (\<lambda>(t, p, i, c, s). unat c - unat i)")
  show "wf (measure (\<lambda>(t, p, i, c, s). unat c - unat i))" by simp
next
  fix triv :: bool and src :: ptr and i count :: size_type
    and s s' :: "'a state" and x :: 'a
  assume "i < count"
  then have "unat (i + 1) = unat i + 1" and "unat i < unat count"
    by (simp_all add: unat_succ word_less_nat_alt)
  then show "((triv, src, i + 1, count, s'), (triv, src, i, count, s))
      \<in> measure (\<lambda>(t, p, i, c, s). unat c - unat i)"
    by simp
qed

declare append_loop.simps [simp del]

definition append_fv :: "bool \<Rightarrow> ptr \<Rightarrow> size_type \<Rightarrow> 'a state \<Rightarrow> error + 'a state" where
  "append_fv triv values count s =
     (case s of
        (h, v) \<Rightarrow>
          if m_size v + count \<ge> m_capacity v
          then append_loop triv values 0 count s
          else and_then
                 (if triv
                  then memcpy (ptr_add (m_data v) (unat (m_size v))) values (unat count) h
                  else copy_range values (ptr_add values (unat count))
                         (ptr_add (m_data v) (unat (m_size v))) h)
                 (\<lambda>h1. Inr (h1, v\<lparr>m_size := m_size v + count\<rparr>)))"

text \<open>
  Pointer subtraction as \<^verbatim>\<open>erase\<close> uses it. \<open>ptr_sub\<close> is \<^verbatim>\<open>p - n\<close>, used for
  \<^verbatim>\<open>end() - 1\<close> where the buffer is not empty; \<open>ptr_diff\<close> is \<^verbatim>\<open>q - p\<close> converted to
  \<^verbatim>\<open>size_t\<close>.
\<close>

fun ptr_sub :: "ptr \<Rightarrow> nat \<Rightarrow> ptr" where
  "ptr_sub (Addr a) n = Addr (a - n)"
| "ptr_sub (Ptr b i) n = Ptr b (i - n)"

fun ptr_diff :: "ptr \<Rightarrow> ptr \<Rightarrow> size_type" where
  "ptr_diff (Ptr b j) (Ptr c i) = word_of_nat j - word_of_nat i"
| "ptr_diff (Addr a) (Addr c) = word_of_nat a - word_of_nat c"
| "ptr_diff _ _ = 0"

text \<open>
  In the branch for a non-trivial \<open>T\<close> the source calls
  \<^verbatim>\<open>copy_range(position, position + 1, count)\<close>: the range is the one slot at
  \<open>position\<close> and the destination is the number \<open>count\<close> where a pointer is expected.
\<close>

definition erase :: "bool \<Rightarrow> 'a \<Rightarrow> 'a state \<Rightarrow> error + 'a state" where
  "erase triv val s =
     (case s of
        (h, v) \<Rightarrow>
          and_then (find_item (begin_fv v) (end_fv v) val h)
            (\<lambda>position.
               if ptr_less position (end_fv v)
               then and_then (if \<not> triv then destroy h position else Inr h)
                      (\<lambda>h1. and_then
                         (if ptr_less position (ptr_sub (end_fv v) 1)
                          then (let count = ptr_diff (end_fv v) position - 1
                                in if triv
                                   then memcpy position (ptr_add position 1) (unat count) h1
                                   else copy_range position (ptr_add position 1)
                                          (Addr (unat count)) h1)
                          else Inr h1)
                         (\<lambda>h2. Inr (h2, v\<lparr>m_size := m_size v - 1\<rparr>)))
               else Inr (h, v)))"

definition pop_back :: "bool \<Rightarrow> 'a state \<Rightarrow> error + 'a state" where
  "pop_back triv s =
     (case s of
        (h, v) \<Rightarrow>
          if \<not> m_size v > 0 then Inl Assert_empty
          else and_then
                 (if \<not> triv then destroy h (ptr_add (m_data v) (unat (m_size v - 1)))
                  else Inr h)
                 (\<lambda>h1. Inr (h1, v\<lparr>m_size := m_size v - 1\<rparr>)))"

text \<open>\<open>dflt\<close> is the object the default constructor of a non-trivial \<open>T\<close> makes.\<close>

definition resize :: "bool \<Rightarrow> 'a \<Rightarrow> size_type \<Rightarrow> 'a state \<Rightarrow> error + 'a state" where
  "resize triv dflt count s =
     (if count = m_size (snd s) then Inr s
      else and_then
             (if count > m_capacity (snd s) then reserve triv count s else Inr s)
             (\<lambda>(h, v).
                and_then
                  (if \<not> triv
                   then if count > m_size v
                     then construct_range dflt (ptr_add (m_data v) (unat (m_size v)))
                            (ptr_add (m_data v) (unat count)) h
                     else if count < m_size v
                     then destruct_range (ptr_add (m_data v) (unat count))
                            (ptr_add (m_data v) (unat (m_size v))) h
                     else Inr h
                   else Inr h)
                  (\<lambda>h1. Inr (h1, v\<lparr>m_size := count\<rparr>))))"

subsection \<open>The byte count of a request\<close>

text \<open>
  \<^verbatim>\<open>reserve\<close> asks the allocator for \<^verbatim>\<open>sizeof(T) * new_cap\<close> bytes, a product computed in
  \<^verbatim>\<open>size_t\<close>. With \<open>sz\<close> for \<^verbatim>\<open>sizeof(T)\<close>, the region granted holds as many slots as fit
  into the bytes asked for, which is fewer than \<open>new_cap\<close> when the product wraps around.
  \<open>reserve_sized\<close> and \<open>resize_sized\<close> are \<^verbatim>\<open>reserve\<close> and \<^verbatim>\<open>resize\<close> with the request
  computed this way; \<^verbatim>\<open>resize\<close> is the operation whose caller chooses \<open>new_cap\<close>.
\<close>

definition request_slots :: "size_type \<Rightarrow> size_type \<Rightarrow> nat" where
  "request_slots sz n = unat (sz * n) div unat sz"

definition reserve_sized ::
  "size_type \<Rightarrow> bool \<Rightarrow> size_type \<Rightarrow> 'a state \<Rightarrow> error + 'a state" where
  "reserve_sized sz triv new_cap s =
     (case s of
        (h, v) \<Rightarrow>
          if \<not> new_cap > m_capacity v then Inl Assert_capacity
          else if triv
          then and_then (realloc (m_data v) (request_slots sz new_cap) h)
                 (\<lambda>(p, h1). Inr (h1, v\<lparr>m_data := p, m_capacity := new_cap\<rparr>))
          else
            (case malloc (request_slots sz new_cap) h of
               (new_data_location, h1) \<Rightarrow>
                 and_then (copy_range (begin_fv v) (end_fv v) new_data_location h1)
                   (\<lambda>h2. and_then (destruct_range (begin_fv v) (end_fv v) h2)
                      (\<lambda>h3. and_then (free (m_data v) h3)
                         (\<lambda>h4. Inr (h4, v\<lparr>m_data := new_data_location,
                                           m_capacity := new_cap\<rparr>))))))"

definition resize_sized ::
  "size_type \<Rightarrow> bool \<Rightarrow> 'a \<Rightarrow> size_type \<Rightarrow> 'a state \<Rightarrow> error + 'a state" where
  "resize_sized sz triv dflt count s =
     (if count = m_size (snd s) then Inr s
      else and_then
             (if count > m_capacity (snd s) then reserve_sized sz triv count s else Inr s)
             (\<lambda>(h, v).
                and_then
                  (if \<not> triv
                   then if count > m_size v
                     then construct_range dflt (ptr_add (m_data v) (unat (m_size v)))
                            (ptr_add (m_data v) (unat count)) h
                     else if count < m_size v
                     then destruct_range (ptr_add (m_data v) (unat count))
                            (ptr_add (m_data v) (unat (m_size v))) h
                     else Inr h
                   else Inr h)
                  (\<lambda>h1. Inr (h1, v\<lparr>m_size := count\<rparr>))))"

subsection \<open>Drivers and observations\<close>

text \<open>Calling \<^verbatim>\<open>push_back\<close> once per value, in order.\<close>

fun push_all :: "bool \<Rightarrow> 'a list \<Rightarrow> 'a state \<Rightarrow> error + 'a state" where
  "push_all triv [] s = Inr s"
| "push_all triv (x # xs) s = and_then (push_back triv x s) (push_all triv xs)"

text \<open>The region a pointer points into.\<close>

fun ptr_block :: "ptr \<Rightarrow> nat" where
  "ptr_block (Ptr b i) = b"
| "ptr_block (Addr a) = 0"

text \<open>The heap once the region behind a handle has been released.\<close>

definition released :: "'a heap \<Rightarrow> ptr \<Rightarrow> 'a heap" where
  "released h p = (case p of Addr a \<Rightarrow> h | Ptr b i \<Rightarrow> h[b := None])"

section \<open>Properties\<close>

subsection \<open>Slots of a well-formed buffer\<close>

lemma well_formed_PtrD:
  assumes "well_formed h v" and "m_data v = Ptr b i"
  obtains cs where "i = 0" and "block h b = Some cs"
    and "length cs = unat (m_capacity v)" and "m_size v \<le> m_capacity v"
    and "\<forall>k < unat (m_size v). cs ! k \<noteq> Raw"
proof -
  from assms obtain cs where 1: "i = 0" "block h b = Some cs"
    "length cs = unat (m_capacity v)" "m_size v \<le> m_capacity v"
    and 2: "list_all (\<lambda>c. c \<noteq> Raw) (take (unat (m_size v)) cs)"
    by (auto simp: well_formed_def split: option.splits)
  from 1 have le: "unat (m_size v) \<le> length cs"
    by (simp add: word_le_nat_alt)
  have "\<forall>k < unat (m_size v). cs ! k \<noteq> Raw"
  proof (intro allI impI)
    fix k assume k: "k < unat (m_size v)"
    with le have "take (unat (m_size v)) cs ! k \<in> set (take (unat (m_size v)) cs)"
      by (intro nth_mem) simp
    with 2 have "take (unat (m_size v)) cs ! k \<noteq> Raw"
      by (simp add: list_all_iff)
    with k show "cs ! k \<noteq> Raw" by simp
  qed
  with 1 show thesis by (rule that)
qed

lemma well_formed_size_pos:
  assumes "well_formed h v" and "pos < m_size v"
  obtains b where "m_data v = Ptr b 0"
proof (cases "m_data v")
  case (Addr a)
  with assms show thesis by (simp add: well_formed_def)
next
  case (Ptr b i)
  with assms(1) have "i = 0" by (auto simp: well_formed_def)
  with Ptr show thesis by (intro that) simp
qed

lemma at_fv_live:
  assumes "well_formed h v" and "pos < m_size v"
  shows "\<exists>x. at_fv h v pos = Inr x \<and> elements h v ! unat pos = Obj x"
proof -
  from assms obtain b where b: "m_data v = Ptr b 0"
    by (rule well_formed_size_pos)
  with assms(1) obtain cs where cs: "block h b = Some cs"
    "length cs = unat (m_capacity v)" "m_size v \<le> m_capacity v"
    "\<forall>k < unat (m_size v). cs ! k \<noteq> Raw"
    by (rule well_formed_PtrD)
  from assms(2) have lt: "unat pos < unat (m_size v)"
    by (simp add: word_less_nat_alt)
  with cs have inb: "unat pos < length cs"
    by (simp add: word_le_nat_alt)
  from lt cs obtain x where x: "cs ! unat pos = Obj x"
    by (cases "cs ! unat pos") auto
  from assms(2) have "\<not> m_size v \<le> pos" by simp
  with assms(2) b cs inb x have "at_fv h v pos = Inr x"
    by (simp add: at_fv_def subscript_def deref_def)
  moreover from b cs lt x have "elements h v ! unat pos = Obj x"
    by (simp add: elements_def region_def size_fv_def begin_fv_def)
  ultimately show ?thesis by blast
qed

text \<open>
  Claim C9. \<^verbatim>\<open>at(pos)\<close> ends with the range error exactly when \<open>pos \<ge> size()\<close>; on a
  well-formed buffer it otherwise returns the element at index \<open>pos\<close>, and the range error
  is its only failure, an exception that can be caught and not an abort. The operation
  takes the heap and the buffer and yields a value only: it writes nothing, so size,
  capacity and elements are what they were.
\<close>

theorem at_range_error_iff:
  "(at_fv h v pos = Inl Range_error \<longleftrightarrow> pos \<ge> size_fv v) \<and>
   (well_formed h v \<longrightarrow> pos < size_fv v \<longrightarrow>
      (\<exists>x. at_fv h v pos = Inr x \<and> elements h v ! unat pos = Obj x)) \<and>
   (well_formed h v \<longrightarrow> (\<forall>e. at_fv h v pos = Inl e \<longrightarrow> e = Range_error \<and> catchable e))"
proof -
  have 1: "at_fv h v pos = Inl Range_error \<longleftrightarrow> pos \<ge> size_fv v"
    by (auto simp: at_fv_def subscript_def deref_def size_fv_def
          split: sum.splits cell.splits ptr.splits option.splits if_splits
          elim!: load.elims)
  have 2: "\<exists>x. at_fv h v pos = Inr x \<and> elements h v ! unat pos = Obj x"
    if "well_formed h v" "pos < size_fv v"
    using that by (simp add: at_fv_live size_fv_def)
  have 3: "e = Range_error \<and> catchable e" if w: "well_formed h v" and e: "at_fv h v pos = Inl e" for e
  proof (cases "pos < m_size v")
    case True
    with w at_fv_live [of h v pos] e show ?thesis by auto
  next
    case False
    then have "m_size v \<le> pos" by (simp add: not_less)
    with e show ?thesis by (simp add: at_fv_def)
  qed
  from 1 2 3 show ?thesis by blast
qed

theorem at_range_error_witness:
  "well_formed [Some [Obj (10::nat), Obj 20, Raw]] \<lparr>m_data = Ptr 0 0, m_size = 2, m_capacity = 3\<rparr> \<and>
   at_fv [Some [Obj (10::nat), Obj 20, Raw]] \<lparr>m_data = Ptr 0 0, m_size = 2, m_capacity = 3\<rparr> 1 = Inr 20 \<and>
   at_fv [Some [Obj (10::nat), Obj 20, Raw]] \<lparr>m_data = Ptr 0 0, m_size = 2, m_capacity = 3\<rparr> 2 = Inl Range_error \<and>
   catchable Range_error"
  using at_range_error_iff [of "[Some [Obj (10::nat), Obj 20, Raw]]" "\<lparr>m_data = Ptr 0 0, m_size = 2, m_capacity = 3\<rparr>" 1]
        at_range_error_iff [of "[Some [Obj (10::nat), Obj 20, Raw]]" "\<lparr>m_data = Ptr 0 0, m_size = 2, m_capacity = 3\<rparr>" 2]
  by (simp add: well_formed_def block_def size_fv_def elements_def region_def begin_fv_def)

subsection \<open>Regions\<close>

lemma block_SomeD: "block h b = Some cs \<Longrightarrow> b < length h \<and> h ! b = Some cs"
  by (simp add: block_def split: if_splits)

lemma block_update:
  "block (h[b := x]) a = (if a = b \<and> b < length h then x else block h a)"
  by (simp add: block_def)

lemma block_append1:
  "block (h @ [x]) a = (if a < length h then block h a else if a = length h then x else None)"
  by (simp add: block_def nth_append)

lemma update_same_block: "block h b = Some cs \<Longrightarrow> h[b := Some cs] = h"
  by (simp add: block_def list_update_same_conv split: if_splits)

subsection \<open>What the helper loops compute\<close>

lemma construct_range_spec:
  assumes "block h b = Some cs" and "i + n \<le> length cs"
  shows "construct_range d (Ptr b i) (Ptr b (i + n)) h =
    Inr (h[b := Some (take i cs @ replicate n (Obj d) @ drop (i + n) cs)])"
  using assms
proof (induction n arbitrary: i cs h)
  case 0
  then show ?case
    by (subst construct_range.simps) (simp add: update_same_block)
next
  case (Suc n)
  let ?cs = "cs[i := Obj d]" and ?h = "h[b := Some (cs[i := Obj d])]"
  from Suc.prems have b: "b < length h" and i: "i < length cs"
    by (auto dest: block_SomeD)
  from Suc.prems b have blk: "block ?h b = Some ?cs"
    by (simp add: block_update)
  have "construct_range d (Ptr b i) (Ptr b (i + Suc n)) h =
      construct_range d (Ptr b (Suc i)) (Ptr b (Suc i + n)) ?h"
    using Suc.prems i
    by (subst construct_range.simps) (simp add: construct_def)
  also have "\<dots> = Inr (?h[b := Some (take (Suc i) ?cs @ replicate n (Obj d) @ drop (Suc i + n) ?cs)])"
    using Suc.prems by (intro Suc.IH blk) simp
  also have "take (Suc i) ?cs = take i cs @ [Obj d]"
    using i by (simp add: take_Suc_conv_app_nth)
  finally show ?case
    by (simp add: replicate_app_Cons_same)
qed


lemma destruct_range_spec:
  assumes "block h b = Some cs" and "i + n \<le> length cs"
    and "\<forall>k < n. cs ! (i + k) \<noteq> Raw"
  shows "destruct_range (Ptr b i) (Ptr b (i + n)) h =
    Inr (h[b := Some (take i cs @ replicate n Raw @ drop (i + n) cs)])"
  using assms
proof (induction n arbitrary: i cs h)
  case 0
  then show ?case
    by (subst destruct_range.simps) (simp add: update_same_block)
next
  case (Suc n)
  let ?cs = "cs[i := Raw]" and ?h = "h[b := Some (cs[i := Raw])]"
  from Suc.prems have b: "b < length h" and i: "i < length cs"
    by (auto dest: block_SomeD)
  from Suc.prems(3) have "cs ! (i + 0) \<noteq> Raw" by blast
  then obtain x where x: "cs ! i = Obj x" by (cases "cs ! i") auto
  from Suc.prems b have blk: "block ?h b = Some ?cs"
    by (simp add: block_update)
  have live: "\<forall>k < n. ?cs ! (Suc i + k) \<noteq> Raw"
  proof (intro allI impI)
    fix k assume "k < n"
    with Suc.prems(3) have "cs ! (i + Suc k) \<noteq> Raw" by (metis Suc_less_eq)
    then show "?cs ! (Suc i + k) \<noteq> Raw" by simp
  qed
  have "destruct_range (Ptr b i) (Ptr b (i + Suc n)) h =
      destruct_range (Ptr b (Suc i)) (Ptr b (Suc i + n)) ?h"
    using Suc.prems(1) i x
    by (subst destruct_range.simps) (simp add: destroy_def)
  also have "\<dots> = Inr (?h[b := Some (take (Suc i) ?cs @ replicate n Raw @ drop (Suc i + n) ?cs)])"
    using Suc.prems(2) live by (intro Suc.IH blk) simp_all
  also have "take (Suc i) ?cs = take i cs @ [Raw]"
    using i by (simp add: take_Suc_conv_app_nth)
  finally show ?case
    by (simp add: replicate_app_Cons_same)
qed

lemma copy_range_spec:
  assumes "block h b = Some cs" and "block h d = Some ds" and "b \<noteq> d"
    and "i + n \<le> length cs" and "j + n \<le> length ds"
    and "\<forall>k < n. cs ! (i + k) \<noteq> Raw"
  shows "copy_range (Ptr b i) (Ptr b (i + n)) (Ptr d j) h =
    Inr (h[d := Some (take j ds @ take n (drop i cs) @ drop (j + n) ds)])"
  using assms
proof (induction n arbitrary: i j ds h)
  case 0
  then show ?case
    by (subst copy_range.simps) (simp add: update_same_block)
next
  case (Suc n)
  let ?ds = "ds[j := cs ! i]"
  let ?h = "h[d := Some ?ds]"
  from Suc.prems have d: "d < length h" and i: "i < length cs" and j: "j < length ds"
    by (auto dest: block_SomeD)
  from Suc.prems(6) have "cs ! (i + 0) \<noteq> Raw" by blast
  then obtain x where x: "cs ! i = Obj x" by (cases "cs ! i") auto
  from Suc.prems d have blk: "block ?h b = Some cs" "block ?h d = Some ?ds"
    by (simp_all add: block_update)
  have live: "\<forall>k < n. cs ! (Suc i + k) \<noteq> Raw"
  proof (intro allI impI)
    fix k assume "k < n"
    with Suc.prems(6) have "cs ! (i + Suc k) \<noteq> Raw" by (metis Suc_less_eq)
    then show "cs ! (Suc i + k) \<noteq> Raw" by simp
  qed
  have "copy_range (Ptr b i) (Ptr b (i + Suc n)) (Ptr d j) h =
      copy_range (Ptr b (Suc i)) (Ptr b (Suc i + n)) (Ptr d (Suc j)) ?h"
    using Suc.prems(1,2) i j x
    by (subst copy_range.simps) (simp add: deref_def construct_def)
  also have "\<dots> = Inr (?h[d := Some (take (Suc j) ?ds @ take n (drop (Suc i) cs) @ drop (Suc j + n) ?ds)])"
    using Suc.prems(3,4,5) live by (intro Suc.IH blk) simp_all
  also have "take (Suc j) ?ds = take j ds @ [cs ! i]"
    using j by (simp add: take_Suc_conv_app_nth)
  finally have step: "copy_range (Ptr b i) (Ptr b (i + Suc n)) (Ptr d j) h =
      Inr (?h[d := Some ((take j ds @ [cs ! i]) @ take n (drop (Suc i) cs) @ drop (Suc j + n) ?ds)])" .
  have "take (Suc n) (drop i cs) = cs ! i # take n (drop (Suc i) cs)"
    using i by (simp add: Cons_nth_drop_Suc [symmetric])
  with step show ?case by simp
qed


lemma memcpy_spec:
  assumes "block h b = Some cs" and "block h d = Some ds" and "b \<noteq> d"
    and "i + n \<le> length cs" and "j + n \<le> length ds"
  shows "memcpy (Ptr d j) (Ptr b i) n h =
    Inr (h[d := Some (take j ds @ take n (drop i cs) @ drop (j + n) ds)])"
  using assms
proof (induction n arbitrary: i j ds h)
  case 0
  then show ?case by (simp add: update_same_block)
next
  case (Suc n)
  let ?ds = "ds[j := cs ! i]"
  let ?h = "h[d := Some ?ds]"
  from Suc.prems have d: "d < length h" and i: "i < length cs" and j: "j < length ds"
    by (auto dest: block_SomeD)
  from Suc.prems d have blk: "block ?h b = Some cs" "block ?h d = Some ?ds"
    by (simp_all add: block_update)
  have "memcpy (Ptr d j) (Ptr b i) (Suc n) h = memcpy (Ptr d (Suc j)) (Ptr b (Suc i)) n ?h"
    using Suc.prems(1,2) i j by simp
  also have "\<dots> = Inr (?h[d := Some (take (Suc j) ?ds @ take n (drop (Suc i) cs) @ drop (Suc j + n) ?ds)])"
    using Suc.prems(3,4,5) by (intro Suc.IH blk) simp_all
  also have "take (Suc j) ?ds = take j ds @ [cs ! i]"
    using j by (simp add: take_Suc_conv_app_nth)
  finally have step: "memcpy (Ptr d j) (Ptr b i) (Suc n) h =
      Inr (?h[d := Some ((take j ds @ [cs ! i]) @ take n (drop (Suc i) cs) @ drop (Suc j + n) ?ds)])" .
  have "take (Suc n) (drop i cs) = cs ! i # take n (drop (Suc i) cs)"
    using i by (simp add: Cons_nth_drop_Suc [symmetric])
  with step show ?case by simp
qed

lemma memcpy_shift_down:
  assumes "block h b = Some cs" and "Suc i + n \<le> length cs"
  shows "memcpy (Ptr b i) (Ptr b (Suc i)) n h =
    Inr (h[b := Some (take i cs @ take n (drop (Suc i) cs) @ drop (i + n) cs)])"
  using assms
proof (induction n arbitrary: i cs h)
  case 0
  then show ?case by (simp add: update_same_block)
next
  case (Suc n)
  let ?cs = "cs[i := cs ! Suc i]"
  let ?h = "h[b := Some ?cs]"
  from Suc.prems have b: "b < length h" and i: "Suc i < length cs"
    by (auto dest: block_SomeD)
  from Suc.prems b have blk: "block ?h b = Some ?cs"
    by (simp add: block_update)
  have "memcpy (Ptr b i) (Ptr b (Suc i)) (Suc n) h =
      memcpy (Ptr b (Suc i)) (Ptr b (Suc (Suc i))) n ?h"
    using Suc.prems(1) i by simp
  also have "\<dots> = Inr (?h[b := Some (take (Suc i) ?cs @ take n (drop (Suc (Suc i)) ?cs) @ drop (Suc i + n) ?cs)])"
    using Suc.prems(2) by (intro Suc.IH blk) simp
  also have "take (Suc i) ?cs = take i cs @ [cs ! Suc i]"
    using i by (simp add: take_Suc_conv_app_nth)
  finally have step: "memcpy (Ptr b i) (Ptr b (Suc i)) (Suc n) h =
      Inr (?h[b := Some ((take i cs @ [cs ! Suc i]) @ take n (drop (Suc (Suc i)) ?cs) @ drop (Suc i + n) ?cs)])" .
  have "take (Suc n) (drop (Suc i) cs) = cs ! Suc i # take n (drop (Suc (Suc i)) cs)"
    using i by (simp add: Cons_nth_drop_Suc [symmetric])
  with step show ?case by simp
qed

subsection \<open>Destruction and moves\<close>

lemma destructor_spec:
  assumes "well_formed h v"
  shows "destructor triv (h, v) = Inr (released h (m_data v))"
proof (cases "m_data v")
  case (Addr a)
  with assms show ?thesis
    by (simp add: well_formed_def destructor_def released_def)
next
  case (Ptr b i)
  with assms obtain cs where cs: "i = 0" "block h b = Some cs"
    "length cs = unat (m_capacity v)" "m_size v \<le> m_capacity v"
    "\<forall>k < unat (m_size v). cs ! k \<noteq> Raw"
    by (rule well_formed_PtrD)
  let ?n = "unat (m_size v)"
  from cs have n: "0 + ?n \<le> length cs" by (simp add: word_le_nat_alt)
  from cs have b: "b < length h" by (auto dest: block_SomeD)
  have "destruct_range (Ptr b 0) (Ptr b (0 + ?n)) h =
      Inr (h[b := Some (take 0 cs @ replicate ?n Raw @ drop (0 + ?n) cs)])"
    using cs(2) n cs(5) by (intro destruct_range_spec) simp_all
  with Ptr cs b show ?thesis
    by (simp add: destructor_def released_def begin_fv_def end_fv_def block_update)
qed

text \<open>
  Claim C5, as the code has it. A move construction or move assignment sets the source's
  handle to \<^verbatim>\<open>nullptr\<close> and nothing else: the source owns no region, and its
  \<^verbatim>\<open>size()\<close> and \<^verbatim>\<open>capacity()\<close> are the ones it had. Its destructor does nothing;
  destroying the destination and the source, in either order, destroys each element once
  and releases the region once.
\<close>

theorem move_source_non_owning:
  assumes "well_formed h other"
    and "(dst, src) = move_ctor other \<or> (dst, src) = move_assign this other"
  shows "m_data src = nullptr \<and> size_fv src = size_fv other \<and>
         capacity src = capacity other \<and>
         destructor triv (h, src) = Inr h \<and>
         (\<exists>h'. destructor triv (h, dst) = Inr h' \<and> destructor triv (h', src) = Inr h' \<and>
               h' = released h (m_data other))"
proof -
  from assms(2) have src: "src = other\<lparr>m_data := nullptr\<rparr>"
    by (auto simp: move_ctor_def move_assign_def)
  from assms(2) have dst: "m_data dst = m_data other" "m_size dst = m_size other"
    by (auto simp: move_ctor_def move_assign_def)
  have "destructor triv (h, dst) = Inr (released h (m_data other))"
  proof (cases "m_data other")
    case (Addr a)
    with assms(1) dst show ?thesis
      by (simp add: well_formed_def destructor_def released_def)
  next
    case (Ptr b i)
    with assms(1) obtain cs where cs: "i = 0" "block h b = Some cs"
      "length cs = unat (m_capacity other)" "m_size other \<le> m_capacity other"
      "\<forall>k < unat (m_size other). cs ! k \<noteq> Raw"
      by (rule well_formed_PtrD)
    let ?n = "unat (m_size other)"
    from cs have n: "0 + ?n \<le> length cs" by (simp add: word_le_nat_alt)
    from cs have b: "b < length h" by (auto dest: block_SomeD)
    have "destruct_range (Ptr b 0) (Ptr b (0 + ?n)) h =
        Inr (h[b := Some (take 0 cs @ replicate ?n Raw @ drop (0 + ?n) cs)])"
      using cs(2) n cs(5) by (intro destruct_range_spec) simp_all
    with Ptr cs b dst show ?thesis
      by (simp add: destructor_def released_def begin_fv_def end_fv_def block_update)
  qed
  with src show ?thesis
    by (simp add: destructor_def size_fv_def capacity_def)
qed

theorem move_source_non_owning_witness:
  "well_formed [Some [Obj (1::nat), Obj 2, Raw]]
     \<lparr>m_data = Ptr 0 0, m_size = 2, m_capacity = 3\<rparr> \<and>
   move_ctor \<lparr>m_data = Ptr 0 0, m_size = 2, m_capacity = 3\<rparr> =
     (\<lparr>m_data = Ptr 0 0, m_size = 2, m_capacity = 3\<rparr>,
      \<lparr>m_data = nullptr, m_size = 2, m_capacity = 3\<rparr>) \<and>
   move_assign fast_vector_default \<lparr>m_data = Ptr 0 0, m_size = 2, m_capacity = 3\<rparr> =
     (\<lparr>m_data = Ptr 0 0, m_size = 2, m_capacity = 2\<rparr>,
      \<lparr>m_data = nullptr, m_size = 2, m_capacity = 3\<rparr>) \<and>
   size_fv \<lparr>m_data = nullptr, m_size = 2, m_capacity = 3\<rparr> = 2 \<and>
   destructor False ([Some [Obj (1::nat), Obj 2, Raw]],
     \<lparr>m_data = nullptr, m_size = 2, m_capacity = 3\<rparr>) =
     Inr [Some [Obj 1, Obj 2, Raw]] \<and>
   destructor False ([Some [Obj (1::nat), Obj 2, Raw]],
     \<lparr>m_data = Ptr 0 0, m_size = 2, m_capacity = 3\<rparr>) = Inr [None] \<and>
   destructor False ([Some [Obj (1::nat), Obj 2, Raw]],
     \<lparr>m_data = Ptr 0 0, m_size = 2, m_capacity = 2\<rparr>) = Inr [None] \<and>
   destructor False ([None :: nat cell list option],
     \<lparr>m_data = nullptr, m_size = 2, m_capacity = 3\<rparr>) = Inr [None]"
  using move_source_non_owning [of "[Some [Obj (1::nat), Obj 2, Raw]]"
      "\<lparr>m_data = Ptr 0 0, m_size = 2, m_capacity = 3\<rparr>"
      "\<lparr>m_data = Ptr 0 0, m_size = 2, m_capacity = 3\<rparr>"
      "\<lparr>m_data = nullptr, m_size = 2, m_capacity = 3\<rparr>" fast_vector_default False]
    move_source_non_owning [of "[Some [Obj (1::nat), Obj 2, Raw]]"
      "\<lparr>m_data = Ptr 0 0, m_size = 2, m_capacity = 3\<rparr>"
      "\<lparr>m_data = Ptr 0 0, m_size = 2, m_capacity = 2\<rparr>"
      "\<lparr>m_data = nullptr, m_size = 2, m_capacity = 3\<rparr>" fast_vector_default False]
  by (simp add: well_formed_def block_def move_ctor_def move_assign_def size_fv_def
        released_def fast_vector_default_def)

text \<open>
  Claim C5 as stated asks for \<open>size() == 0\<close> in the source. After one \<^verbatim>\<open>push_back\<close>
  and a move, by construction or by assignment, the source's \<^verbatim>\<open>size()\<close> is still 1.
\<close>

theorem move_source_size_counterexample:
  "and_then (push_all True [1::nat] ([], fast_vector_default))
     (\<lambda>(h, other). Inr (size_fv (snd (move_ctor other)),
                          size_fv (snd (move_assign fast_vector_default other)))) =
     Inr (1, 1)"
  by code_simp

text \<open>
  Claim C6 at the input where the code departs from it. The move assignment stores the
  source's size as the destination's capacity, where the move constructor stores the
  source's capacity: after two \<^verbatim>\<open>push_back\<close> the source has size 2 and capacity 3, and
  the buffer it is move-assigned to reports capacity 2.
\<close>

theorem move_assign_capacity:
  "capacity (fst (move_assign this other)) = size_fv other \<and>
   capacity (fst (move_ctor other)) = capacity other \<and>
   and_then (push_all True [1::nat, 2] ([], fast_vector_default))
     (\<lambda>(h, other). Inr (move_assign fast_vector_default other)) =
     Inr (\<lparr>m_data = Ptr 1 0, m_size = 2, m_capacity = 2\<rparr>,
          \<lparr>m_data = nullptr, m_size = 2, m_capacity = 3\<rparr>)"
proof (intro conjI)
  show "capacity (fst (move_assign this other)) = size_fv other"
    by (simp add: move_assign_def capacity_def size_fv_def)
  show "capacity (fst (move_ctor other)) = capacity other"
    by (simp add: move_ctor_def capacity_def)
  show "and_then (push_all True [1::nat, 2] ([], fast_vector_default))
     (\<lambda>(h, other). Inr (move_assign fast_vector_default other)) =
     Inr (\<lparr>m_data = Ptr 1 0, m_size = 2, m_capacity = 2\<rparr>,
          \<lparr>m_data = nullptr, m_size = 2, m_capacity = 3\<rparr>)"
    by code_simp
qed

subsection \<open>Shrinking\<close>

lemma shrink_to_fit_fields:
  "shrink_to_fit triv (h, v) = Inr (h', v') \<Longrightarrow>
     m_capacity v' = m_capacity v \<and> m_size v' = m_size v"
  by (auto simp: shrink_to_fit_def malloc_def and_then_eq_Inr split: if_splits)

text \<open>
  Claim C4 at the input where the code departs from it. \<^verbatim>\<open>shrink_to_fit\<close> moves the
  elements to a region of \<open>size\<close> slots and leaves \<open>m_capacity\<close> as it was: after two
  \<^verbatim>\<open>push_back\<close> the buffer has size 2 and capacity 3, and after \<^verbatim>\<open>shrink_to_fit\<close> the
  region has 2 slots while \<^verbatim>\<open>capacity()\<close> still answers 3, for a trivial and for a
  non-trivial element type.
\<close>

theorem shrink_to_fit_keeps_capacity:
  "and_then (push_all True [1::nat, 2] ([], fast_vector_default)) (shrink_to_fit True) =
     Inr ([None, None, Some [Obj 1, Obj 2]],
          \<lparr>m_data = Ptr 2 0, m_size = 2, m_capacity = 3\<rparr>) \<and>
   and_then (push_all False [1::nat, 2] ([], fast_vector_default)) (shrink_to_fit False) =
     Inr ([None, None, Some [Obj 1, Obj 2]],
          \<lparr>m_data = Ptr 2 0, m_size = 2, m_capacity = 3\<rparr>)"
  by code_simp

subsection \<open>Erasing from a buffer of non-trivial elements\<close>

text \<open>
  Claim C2 at the input where the code departs from it. With a non-trivial element type,
  erasing an element that is not the last destroys it and then calls
  \<^verbatim>\<open>copy_range(position, position + 1, count)\<close>, which copy-constructs from the slot
  just destroyed towards the address \<open>count\<close>: nothing is shifted down. (In C++ the call
  is ill-formed, \<open>count\<close> being no pointer, so \<^verbatim>\<open>erase\<close> cannot be instantiated for such
  a type at all.)
\<close>

theorem erase_nontrivial_no_shift:
  "and_then (push_all False [1::nat, 2, 3] ([], fast_vector_default)) (erase False 1) =
     Inl Not_alive"
  by code_simp

subsection \<open>Growth at the top of \<open>size_type\<close>\<close>

text \<open>
  Claim C10 at the input where the code departs from it. \<^verbatim>\<open>resize\<close> to \<open>2 ^ 63\<close>
  elements makes size and capacity \<open>2 ^ 63\<close>; the next \<^verbatim>\<open>push_back\<close> asks
  \<^verbatim>\<open>reserve\<close> for \<open>2 ^ 63 * 2 + 1\<close>, which is 1 in \<^verbatim>\<open>size_type\<close>, and the assertion
  \<^verbatim>\<open>new_cap > m_capacity\<close> fails.
\<close>

theorem push_back_reserve_wraps:
  "and_then (resize True d (2 ^ 63) ([], fast_vector_default)) (push_back True x) =
     Inl Assert_capacity"
  by (simp add: resize_def reserve_def push_back_def malloc_def fast_vector_default_def
        grow_factor_def)

subsection \<open>Growth\<close>

lemma elements_Ptr:
  "m_data v = Ptr b 0 \<Longrightarrow> block h b = Some cs \<Longrightarrow> elements h v = take (unat (m_size v)) cs"
  by (simp add: elements_def region_def begin_fv_def size_fv_def)

lemma elements_null: "m_data v = Addr a \<Longrightarrow> elements h v = []"
  by (simp add: elements_def region_def begin_fv_def)

lemma well_formedI:
  assumes "m_data v = Ptr b 0" and "block h b = Some cs"
    and "length cs = unat (m_capacity v)" and "m_size v \<le> m_capacity v"
    and "\<forall>k < unat (m_size v). cs ! k \<noteq> Raw"
  shows "well_formed h v"
proof -
  from assms(3,4) have "unat (m_size v) \<le> length cs"
    by (simp add: word_le_nat_alt)
  with assms(5) have "list_all (\<lambda>c. c \<noteq> Raw) (take (unat (m_size v)) cs)"
    by (auto simp: list_all_length)
  with assms(1-4) show ?thesis by (simp add: well_formed_def)
qed

lemma reserve_spec:
  assumes wf: "well_formed h v" and lt: "m_capacity v < new_cap"
  shows "\<exists>h' nb. reserve triv new_cap (h, v) =
            Inr (h', v\<lparr>m_data := Ptr (length h) 0, m_capacity := new_cap\<rparr>) \<and>
          length h' = Suc (length h) \<and>
          block h' (length h) = Some nb \<and> length nb = unat new_cap \<and>
          take (unat (m_size v)) nb = elements h v \<and>
          (\<forall>a. a < length h \<longrightarrow> m_data v \<noteq> Ptr a 0 \<longrightarrow> block h' a = block h a)"
proof (cases "m_data v")
  case (Addr a)
  with wf have z: "a = 0" "m_size v = 0" "m_capacity v = 0"
    by (simp_all add: well_formed_def)
  let ?h' = "h @ [Some (replicate (unat new_cap) Raw)]"
  have "reserve triv new_cap (h, v) =
      Inr (?h', v\<lparr>m_data := Ptr (length h) 0, m_capacity := new_cap\<rparr>)"
    using Addr z lt
    by (simp add: reserve_def malloc_def begin_fv_def end_fv_def
          copy_range.simps destruct_range.simps)
  moreover have "block ?h' (length h) = Some (replicate (unat new_cap) Raw)"
    by (simp add: block_append1)
  moreover have "\<forall>a. a < length h \<longrightarrow> block ?h' a = block h a"
    by (simp add: block_append1)
  ultimately show ?thesis
    using Addr z by (simp add: elements_null)
next
  case (Ptr b i)
  with wf obtain cs where cs: "i = 0" "block h b = Some cs"
    "length cs = unat (m_capacity v)" "m_size v \<le> m_capacity v"
    "\<forall>k < unat (m_size v). cs ! k \<noteq> Raw"
    by (rule well_formed_PtrD)
  let ?n = "unat new_cap" and ?s = "unat (m_size v)"
  from cs have b: "b < length h" by (auto dest: block_SomeD)
  from cs have s: "?s \<le> length cs" by (simp add: word_le_nat_alt)
  from lt cs have n: "length cs < ?n" by (simp add: word_less_nat_alt)
  from Ptr cs have el: "elements h v = take ?s cs" by (simp add: elements_Ptr)
  show ?thesis
  proof (cases triv)
    case True
    let ?nb = "take ?n cs @ replicate (?n - length cs) Raw"
    let ?h' = "h[b := None] @ [Some ?nb]"
    have "reserve triv new_cap (h, v) =
        Inr (?h', v\<lparr>m_data := Ptr (length h) 0, m_capacity := new_cap\<rparr>)"
      using True Ptr cs lt by (simp add: reserve_def)
    moreover have "block ?h' (length h) = Some ?nb"
      by (simp add: block_append1)
    moreover have "length ?nb = ?n" using n by simp
    moreover have "take ?s ?nb = take ?s cs" using s n by simp
    moreover have "\<forall>a. a < length h \<longrightarrow> a \<noteq> b \<longrightarrow> block ?h' a = block h a"
      by (simp add: block_append1 block_update)
    ultimately show ?thesis using Ptr cs(1) el by auto
  next
    case False
    let ?h1 = "h @ [Some (replicate ?n Raw)]"
    let ?nb = "take ?s cs @ replicate (?n - ?s) Raw"
    let ?h2 = "?h1[length h := Some ?nb]"
    let ?h3 = "?h2[b := Some (replicate ?s Raw @ drop ?s cs)]"
    let ?h4 = "?h3[b := None]"
    have b1: "block ?h1 b = Some cs" "block ?h1 (length h) = Some (replicate ?n Raw)"
      using cs(2) b by (simp_all add: block_append1)
    have "copy_range (Ptr b 0) (Ptr b (0 + ?s)) (Ptr (length h) 0) ?h1 =
        Inr (?h1[length h := Some (take 0 (replicate ?n Raw) @ take ?s (drop 0 cs) @
               drop (0 + ?s) (replicate ?n Raw))])"
      using b1 b s n cs(5) by (intro copy_range_spec) simp_all
    then have c: "copy_range (Ptr b 0) (Ptr b ?s) (Ptr (length h) 0) ?h1 = Inr ?h2"
      by simp
    have b2: "block ?h2 b = Some cs"
      using cs(2) b by (simp add: block_update block_append1)
    have "destruct_range (Ptr b 0) (Ptr b (0 + ?s)) ?h2 =
        Inr (?h2[b := Some (take 0 cs @ replicate ?s Raw @ drop (0 + ?s) cs)])"
      using b2 s cs(5) by (intro destruct_range_spec) simp_all
    then have d: "destruct_range (Ptr b 0) (Ptr b ?s) ?h2 = Inr ?h3" by simp
    have f: "free (Ptr b 0) ?h3 = Inr ?h4"
      using b by (simp add: block_update)
    have "reserve triv new_cap (h, v) =
        Inr (?h4, v\<lparr>m_data := Ptr (length h) 0, m_capacity := new_cap\<rparr>)"
      using False Ptr cs(1) lt c d f
      by (simp add: reserve_def malloc_def begin_fv_def end_fv_def)
    moreover have "block ?h4 (length h) = Some ?nb"
      using b by (simp add: block_update block_append1)
    moreover have "length ?nb = ?n" using s n by simp
    moreover have "take ?s ?nb = take ?s cs" using s by simp
    moreover have "\<forall>a. a < length h \<longrightarrow> a \<noteq> b \<longrightarrow> block ?h4 a = block h a"
      by (simp add: block_update block_append1)
    ultimately show ?thesis using Ptr cs(1) el by auto
  qed
qed

lemma well_formed_elements:
  assumes "well_formed h v"
  shows "length (elements h v) = unat (m_size v)"
    and "\<forall>k < unat (m_size v). elements h v ! k \<noteq> Raw"
proof -
  have "length (elements h v) = unat (m_size v) \<and>
        (\<forall>k < unat (m_size v). elements h v ! k \<noteq> Raw)"
  proof (cases "m_data v")
    case (Addr a)
    with assms show ?thesis by (simp add: well_formed_def elements_null)
  next
    case (Ptr b i)
    with assms obtain cs where cs: "i = 0" "block h b = Some cs"
      "length cs = unat (m_capacity v)" "m_size v \<le> m_capacity v"
      "\<forall>k < unat (m_size v). cs ! k \<noteq> Raw"
      by (rule well_formed_PtrD)
    from cs have "unat (m_size v) \<le> length cs" by (simp add: word_le_nat_alt)
    with Ptr cs show ?thesis by (simp add: elements_Ptr)
  qed
  then show "length (elements h v) = unat (m_size v)"
    and "\<forall>k < unat (m_size v). elements h v ! k \<noteq> Raw" by simp_all
qed

lemma grow_no_wrap:
  fixes c :: size_type
  assumes "unat c < 2 ^ 63"
  shows "unat (c * grow_factor + 1) = 2 * unat c + 1" and "c < c * grow_factor + 1"
proof -
  from assms have "unat c * unat (2 :: size_type) < 2 ^ LENGTH(64)" by simp
  then have m: "unat (c * 2) = unat c * unat (2 :: size_type)"
    by (simp only: unat_mult_lem)
  with assms have "unat (c * 2) + unat (1 :: size_type) < 2 ^ LENGTH(64)" by simp
  then have "unat (c * 2 + 1) = unat (c * 2) + unat (1 :: size_type)"
    by (simp only: unat_add_lem)
  with m show 1: "unat (c * grow_factor + 1) = 2 * unat c + 1"
    by (simp add: grow_factor_def)
  then show "c < c * grow_factor + 1" by (simp add: word_less_nat_alt)
qed

lemma place_spec:
  assumes wf: "well_formed h v" and lt: "m_size v < m_capacity v"
  shows "\<exists>h'. store h (ptr_add (m_data v) (unat (m_size v))) (Obj x) = Inr h' \<and>
          length h' = length h \<and>
          well_formed h' (v\<lparr>m_size := m_size v + 1\<rparr>) \<and>
          elements h' (v\<lparr>m_size := m_size v + 1\<rparr>) = elements h v @ [Obj x] \<and>
          unat (m_size v + 1) = Suc (unat (m_size v)) \<and>
          (\<forall>a. m_data v \<noteq> Ptr a 0 \<longrightarrow> block h' a = block h a)"
proof -
  from wf lt obtain b where b: "m_data v = Ptr b 0"
    by (cases "m_data v") (auto simp: well_formed_def)
  with wf obtain cs where cs: "block h b = Some cs"
    "length cs = unat (m_capacity v)" "m_size v \<le> m_capacity v"
    "\<forall>k < unat (m_size v). cs ! k \<noteq> Raw"
    by (rule well_formed_PtrD)
  let ?s = "unat (m_size v)"
  let ?cs = "cs[?s := Obj x]"
  let ?h' = "h[b := Some ?cs]" and ?v' = "v\<lparr>m_size := m_size v + 1\<rparr>"
  from lt cs have s: "?s < length cs" by (simp add: word_less_nat_alt)
  from lt have suc: "unat (m_size v + 1) = Suc ?s" by (rule unat_succ)
  from cs have bl: "b < length h" by (auto dest: block_SomeD)
  have st: "store h (ptr_add (m_data v) ?s) (Obj x) = Inr ?h'"
    using b cs(1) s by simp
  have blk: "block ?h' b = Some ?cs" using bl by (simp add: block_update)
  have le: "m_size ?v' \<le> m_capacity ?v'"
    using suc s cs(2) by (simp add: word_le_nat_alt)
  have live: "\<forall>k < unat (m_size ?v'). ?cs ! k \<noteq> Raw"
    using suc cs(4) s by (auto simp: nth_list_update less_Suc_eq)
  have "well_formed ?h' ?v'"
    using b blk cs(2) le live by (intro well_formedI [where b = b and cs = ?cs]) simp_all
  moreover have "elements ?h' ?v' = elements h v @ [Obj x]"
    using b blk cs(1) suc s
    by (simp add: elements_Ptr [where b = b] take_Suc_conv_app_nth)
  moreover have "\<forall>a. m_data v \<noteq> Ptr a 0 \<longrightarrow> block ?h' a = block h a"
    using b by (simp add: block_update)
  ultimately show ?thesis using st suc by simp
qed

lemma push_back_spec:
  assumes wf: "well_formed h v"
    and grow: "m_size v = m_capacity v \<longrightarrow> unat (m_capacity v) < 2 ^ 63"
  shows "\<exists>h' v'. push_back triv x (h, v) = Inr (h', v') \<and>
          well_formed h' v' \<and>
          elements h' v' = elements h v @ [Obj x] \<and>
          m_size v' = m_size v + 1 \<and>
          unat (m_size v') = Suc (unat (m_size v)) \<and>
          length h \<le> length h' \<and>
          (m_capacity v' = m_capacity v \<and> m_data v' = m_data v \<or>
           m_size v = m_capacity v \<and> m_capacity v' = m_capacity v * grow_factor + 1 \<and>
           m_data v' = Ptr (length h) 0) \<and>
          (\<forall>a. a < length h \<longrightarrow> m_data v \<noteq> Ptr a 0 \<longrightarrow> block h' a = block h a)"
proof (cases "m_size v = m_capacity v")
  case False
  with wf have lt: "m_size v < m_capacity v"
    by (cases "m_data v") (auto simp: well_formed_def split: option.splits)
  from place_spec [OF wf lt, of x] obtain h' where h':
    "store h (ptr_add (m_data v) (unat (m_size v))) (Obj x) = Inr h'"
    "length h' = length h"
    "well_formed h' (v\<lparr>m_size := m_size v + 1\<rparr>)"
    "elements h' (v\<lparr>m_size := m_size v + 1\<rparr>) = elements h v @ [Obj x]"
    "unat (m_size v + 1) = Suc (unat (m_size v))"
    "\<forall>a. m_data v \<noteq> Ptr a 0 \<longrightarrow> block h' a = block h a"
    by blast
  from False h'(1) have
    "push_back triv x (h, v) = Inr (h', v\<lparr>m_size := m_size v + 1\<rparr>)"
    by (simp add: push_back_def construct_def)
  with h' show ?thesis by simp
next
  case True
  let ?c = "m_capacity v * grow_factor + 1"
  let ?v1 = "v\<lparr>m_data := Ptr (length h) 0, m_capacity := ?c\<rparr>"
  from True grow have c: "unat ?c = 2 * unat (m_capacity v) + 1" "m_capacity v < ?c"
    by (simp_all add: grow_no_wrap)
  from reserve_spec [OF wf c(2), of triv] obtain h1 nb where r:
    "reserve triv ?c (h, v) = Inr (h1, ?v1)"
    "length h1 = Suc (length h)"
    "block h1 (length h) = Some nb" "length nb = unat ?c"
    "take (unat (m_size v)) nb = elements h v"
    "\<forall>a. a < length h \<longrightarrow> m_data v \<noteq> Ptr a 0 \<longrightarrow> block h1 a = block h a"
    by blast
  have lt1: "m_size ?v1 < m_capacity ?v1" using True c(2) by simp
  have live: "\<forall>k < unat (m_size v). nb ! k \<noteq> Raw"
  proof (intro allI impI)
    fix k assume k: "k < unat (m_size v)"
    with well_formed_elements(2) [OF wf] have "elements h v ! k \<noteq> Raw" by blast
    with r(5) k show "nb ! k \<noteq> Raw" by (metis nth_take)
  qed
  have wf1: "well_formed h1 ?v1"
    using r(3,4) lt1 live
    by (intro well_formedI [where b = "length h" and cs = nb]) simp_all
  have el1: "elements h1 ?v1 = elements h v"
    using r(3,5) by (simp add: elements_Ptr [where b = "length h"])
  from place_spec [OF wf1 lt1, of x] obtain h2 where h2:
    "store h1 (Ptr (length h) (unat (m_size v))) (Obj x) = Inr h2"
    "length h2 = length h1"
    "well_formed h2 (?v1\<lparr>m_size := m_size v + 1\<rparr>)"
    "elements h2 (?v1\<lparr>m_size := m_size v + 1\<rparr>) = elements h1 ?v1 @ [Obj x]"
    "unat (m_size v + 1) = Suc (unat (m_size v))"
    "\<forall>a. Ptr (length h) 0 \<noteq> Ptr a 0 \<longrightarrow> block h2 a = block h1 a"
    by auto
  from True r(1) h2(1) have
    "push_back triv x (h, v) = Inr (h2, ?v1\<lparr>m_size := m_size v + 1\<rparr>)"
    by (simp add: push_back_def construct_def)
  moreover have "\<forall>a. a < length h \<longrightarrow> m_data v \<noteq> Ptr a 0 \<longrightarrow> block h2 a = block h a"
    using h2(6) r(6) by auto
  ultimately show ?thesis
    using h2 el1 r(2) True by simp
qed

subsection \<open>A sequence of \<^verbatim>\<open>push_back\<close>\<close>

lemma well_formed_size_le: "well_formed h v \<Longrightarrow> m_size v \<le> m_capacity v"
  by (cases "m_data v") (auto simp: well_formed_def split: option.splits)

lemma pow2_less_64: "(2::nat) ^ k < 2 ^ 64 \<Longrightarrow> k < 64"
  by (rule power_less_imp_less_exp [of 2]) simp_all

text \<open>
  From the default-constructed buffer the capacities are 0, 1, 3, 7, ...: one less than a
  power of two. Such a capacity doubles without wrap-around unless it is \<open>2 ^ 64 - 1\<close>.
\<close>

lemma push_all_spec:
  assumes "well_formed h v"
    and "\<exists>k \<le> 64. unat (m_capacity v) + 1 = 2 ^ k"
    and "unat (m_size v) + length xs < 2 ^ 64"
  shows "\<exists>h' v'. push_all triv xs (h, v) = Inr (h', v') \<and> well_formed h' v' \<and>
          elements h' v' = elements h v @ map Obj xs \<and>
          unat (m_size v') = unat (m_size v) + length xs"
  using assms
proof (induction xs arbitrary: h v)
  case Nil
  then show ?case by simp
next
  case (Cons x xs)
  from Cons.prems(2) obtain k where k: "k \<le> 64" "unat (m_capacity v) + 1 = 2 ^ k"
    by blast
  have grow: "unat (m_capacity v) < 2 ^ 63" if full: "m_size v = m_capacity v"
  proof -
    from full Cons.prems(3) k(2) have "(2::nat) ^ k < 2 ^ 64" by simp
    then have "k < 64" by (rule pow2_less_64)
    then have "k \<le> 63" by simp
    then have "(2::nat) ^ k \<le> 2 ^ 63" by (intro power_increasing) simp_all
    with k(2) show ?thesis by simp
  qed
  from push_back_spec [OF Cons.prems(1), of triv x] grow
  obtain h1 v1 where p: "push_back triv x (h, v) = Inr (h1, v1)"
    "well_formed h1 v1" "elements h1 v1 = elements h v @ [Obj x]"
    "unat (m_size v1) = Suc (unat (m_size v))"
    "m_capacity v1 = m_capacity v \<or>
     m_size v = m_capacity v \<and> m_capacity v1 = m_capacity v * grow_factor + 1"
    by blast
  have inv: "\<exists>k \<le> 64. unat (m_capacity v1) + 1 = 2 ^ k"
  proof (cases "m_capacity v1 = m_capacity v")
    case True
    with k show ?thesis by auto
  next
    case False
    with p(5) have full: "m_size v = m_capacity v"
      and c: "m_capacity v1 = m_capacity v * grow_factor + 1" by simp_all
    from grow [OF full] have "unat (m_capacity v * grow_factor + 1) = 2 * unat (m_capacity v) + 1"
      by (rule grow_no_wrap)
    with c k(2) have e: "unat (m_capacity v1) + 1 = 2 ^ Suc k" by simp
    from grow [OF full] k(2) have "(2::nat) ^ k < 2 ^ 64" by simp
    then have "k < 64" by (rule pow2_less_64)
    with e show ?thesis by (intro exI [of _ "Suc k"]) simp
  qed
  from p(4) Cons.prems(3) have "unat (m_size v1) + length xs < 2 ^ 64" by simp
  from Cons.IH [OF p(2) inv this]
  obtain h' v' where r: "push_all triv xs (h1, v1) = Inr (h', v')" "well_formed h' v'"
    "elements h' v' = elements h1 v1 @ map Obj xs"
    "unat (m_size v') = unat (m_size v1) + length xs"
    by blast
  with p show ?case by simp
qed

text \<open>
  Claim C1. Starting from a default-constructed buffer, one \<^verbatim>\<open>push_back\<close> per value of
  a sequence of \<open>N\<close> values gives a buffer with \<open>size() == N\<close> and \<open>capacity() \<ge> N\<close> whose
  slots from \<^verbatim>\<open>begin()\<close> to \<^verbatim>\<open>end()\<close> hold exactly those values in insertion order, for
  a trivial and for a non-trivial element type, and whatever else the heap holds. \<open>N\<close>
  ranges over the numbers \<^verbatim>\<open>size()\<close> can return, those below \<open>2 ^ 64\<close>.
\<close>

theorem push_back_sequence:
  assumes "length xs < 2 ^ 64"
  shows "\<exists>h v. push_all triv xs (h0, fast_vector_default) = Inr (h, v) \<and>
          unat (size_fv v) = length xs \<and> size_fv v \<le> capacity v \<and>
          length xs \<le> unat (capacity v) \<and> elements h v = map Obj xs"
proof -
  have wf0: "well_formed h0 fast_vector_default"
    by (simp add: well_formed_def fast_vector_default_def)
  have inv0: "\<exists>k \<le> 64. unat (m_capacity fast_vector_default) + 1 = 2 ^ k"
    by (intro exI [of _ 0]) (simp add: fast_vector_default_def)
  from assms have "unat (m_size fast_vector_default) + length xs < 2 ^ 64"
    by (simp add: fast_vector_default_def)
  from push_all_spec [OF wf0 inv0 this, of triv]
  obtain h v where r: "push_all triv xs (h0, fast_vector_default) = Inr (h, v)"
    "well_formed h v"
    "elements h v = elements h0 fast_vector_default @ map Obj xs"
    "unat (m_size v) = unat (m_size fast_vector_default) + length xs"
    by blast
  from r(2) have le: "m_size v \<le> m_capacity v" by (rule well_formed_size_le)
  then have "unat (m_size v) \<le> unat (m_capacity v)" by (simp add: word_le_nat_alt)
  with r le show ?thesis
    by (simp add: size_fv_def capacity_def fast_vector_default_def elements_null)
qed

theorem push_back_sequence_witness:
  "length [10::nat, 20, 30, 40] < 2 ^ 64 \<and>
   push_all False [10::nat, 20, 30, 40] ([], fast_vector_default) =
     Inr ([None, None, Some [Obj 10, Obj 20, Obj 30, Obj 40, Raw, Raw, Raw]],
          \<lparr>m_data = Ptr 2 0, m_size = 4, m_capacity = 7\<rparr>) \<and>
   elements [None, None, Some [Obj (10::nat), Obj 20, Obj 30, Obj 40, Raw, Raw, Raw]]
     \<lparr>m_data = Ptr 2 0, m_size = 4, m_capacity = 7\<rparr> = map Obj [10, 20, 30, 40]"
proof -
  have 1: "length [10::nat, 20, 30, 40] < 2 ^ 64" by simp
  have 2: "push_all False [10::nat, 20, 30, 40] ([], fast_vector_default) =
     Inr ([None, None, Some [Obj 10, Obj 20, Obj 30, Obj 40, Raw, Raw, Raw]],
          \<lparr>m_data = Ptr 2 0, m_size = 4, m_capacity = 7\<rparr>)"
    by code_simp
  from push_back_sequence [OF 1, of False "[]"] 1 2 show ?thesis
    by auto
qed

subsection \<open>Resizing\<close>

lemma resize_shrink:
  assumes wf: "well_formed h v" and lt: "count < m_size v"
  shows "\<exists>h'. resize triv dflt count (h, v) = Inr (h', v\<lparr>m_size := count\<rparr>) \<and>
          well_formed h' (v\<lparr>m_size := count\<rparr>) \<and>
          elements h' (v\<lparr>m_size := count\<rparr>) = take (unat count) (elements h v)"
proof -
  from wf lt obtain b where b: "m_data v = Ptr b 0"
    by (rule well_formed_size_pos)
  with wf obtain cs where cs: "block h b = Some cs"
    "length cs = unat (m_capacity v)" "m_size v \<le> m_capacity v"
    "\<forall>k < unat (m_size v). cs ! k \<noteq> Raw"
    by (rule well_formed_PtrD)
  let ?c = "unat count" and ?s = "unat (m_size v)"
  let ?v' = "v\<lparr>m_size := count\<rparr>"
  from lt have c: "?c < ?s" by (simp add: word_less_nat_alt)
  from cs have s: "?s \<le> length cs" by (simp add: word_le_nat_alt)
  from lt cs(3) have nores: "\<not> m_capacity v < count" "count \<noteq> m_size v"
    "\<not> m_size v < count" by auto
  from cs have bl: "b < length h" by (auto dest: block_SomeD)
  from lt cs(3) have le': "m_size ?v' \<le> m_capacity ?v'" by simp
  show ?thesis
  proof (cases triv)
    case True
    with nores have "resize triv dflt count (h, v) = Inr (h, ?v')"
      by (simp add: resize_def)
    moreover have "well_formed h ?v'"
      using b cs(1,2) le' cs(4) c
      by (intro well_formedI [where b = b and cs = cs]) simp_all
    moreover have "elements h ?v' = take ?c (elements h v)"
      using b cs(1) c by (simp add: elements_Ptr [where b = b] min_def)
    ultimately show ?thesis by blast
  next
    case False
    let ?cs = "take ?c cs @ replicate (?s - ?c) Raw @ drop (?c + (?s - ?c)) cs"
    let ?h' = "h[b := Some ?cs]"
    have "destruct_range (Ptr b ?c) (Ptr b (?c + (?s - ?c))) h = Inr ?h'"
      using cs(1,4) c s by (intro destruct_range_spec) simp_all
    with c have d: "destruct_range (Ptr b ?c) (Ptr b ?s) h = Inr ?h'" by simp
    have "resize triv dflt count (h, v) = Inr (?h', ?v')"
      using False nores lt b d by (simp add: resize_def)
    moreover have blk: "block ?h' b = Some ?cs" using bl by (simp add: block_update)
    have "well_formed ?h' ?v'"
      using b blk le' cs(2,4) c s
      by (intro well_formedI [where b = b and cs = ?cs]) (simp_all add: nth_append)
    moreover have "elements ?h' ?v' = take ?c (elements h v)"
      using b blk cs(1) c s by (simp add: elements_Ptr [where b = b] min_def)
    ultimately show ?thesis by blast
  qed
qed


lemma well_formed_capacity_pos:
  assumes "well_formed h v" and "0 < m_capacity v"
  obtains b where "m_data v = Ptr b 0"
proof (cases "m_data v")
  case (Addr a)
  with assms show thesis by (simp add: well_formed_def)
next
  case (Ptr b i)
  with assms(1) have "i = 0" by (auto simp: well_formed_def)
  with Ptr show thesis by (intro that) simp
qed

lemma resize_room:
  assumes wf: "well_formed h v" and gt: "m_size v < count"
  shows "\<exists>h1 v1 b1 nb.
          (if count > m_capacity v then reserve triv count (h, v) else Inr (h, v)) =
            Inr (h1, v1) \<and>
          m_data v1 = Ptr b1 0 \<and> block h1 b1 = Some nb \<and>
          length nb = unat (m_capacity v1) \<and> count \<le> m_capacity v1 \<and>
          m_size v1 = m_size v \<and> take (unat (m_size v)) nb = elements h v"
proof (cases "count > m_capacity v")
  case True
  from reserve_spec [OF wf True, of triv] show ?thesis
    using True by auto
next
  case False
  then have le: "count \<le> m_capacity v" by simp
  with gt have "0 < m_capacity v" by (metis le_less_trans not_le word_zero_le)
  with wf obtain b where b: "m_data v = Ptr b 0"
    by (rule well_formed_capacity_pos)
  with wf obtain cs where cs: "block h b = Some cs"
    "length cs = unat (m_capacity v)"
    by (rule well_formed_PtrD)
  with False le b show ?thesis
    by (simp add: elements_Ptr [where b = b])
qed

lemma resize_grow:
  assumes wf: "well_formed h v" and gt: "m_size v < count"
  shows "\<exists>h' v'. resize triv dflt count (h, v) = Inr (h', v') \<and>
          m_size v' = count \<and> count \<le> m_capacity v' \<and>
          length (elements h' v') = unat count \<and>
          take (unat (m_size v)) (elements h' v') = elements h v \<and>
          (\<not> triv \<longrightarrow> well_formed h' v' \<and>
             elements h' v' =
               elements h v @ replicate (unat count - unat (m_size v)) (Obj dflt))"
proof -
  from resize_room [OF wf gt, of triv] obtain h1 v1 b1 nb where r:
    "(if count > m_capacity v then reserve triv count (h, v) else Inr (h, v)) =
       Inr (h1, v1)"
    "m_data v1 = Ptr b1 0" "block h1 b1 = Some nb"
    "length nb = unat (m_capacity v1)" "count \<le> m_capacity v1"
    "m_size v1 = m_size v" "take (unat (m_size v)) nb = elements h v"
    by blast
  let ?c = "unat count" and ?s = "unat (m_size v)"
  let ?v' = "v1\<lparr>m_size := count\<rparr>"
  from gt have s: "?s < ?c" by (simp add: word_less_nat_alt)
  from r(4,5) have c: "?c \<le> length nb" by (simp add: word_le_nat_alt)
  from gt have ne: "count \<noteq> m_size v" "\<not> count < m_size v" by auto
  from r(3) have bl: "b1 < length h1" by (auto dest: block_SomeD)
  have pre: "resize triv dflt count (h, v) =
      and_then
        (if \<not> triv
         then construct_range dflt (Ptr b1 ?s) (Ptr b1 ?c) h1
         else Inr h1)
        (\<lambda>h2. Inr (h2, ?v'))"
    using ne(1) gt r(1,2,6) by (simp add: resize_def)
  show ?thesis
  proof (cases triv)
    case True
    with pre have "resize triv dflt count (h, v) = Inr (h1, ?v')"
      by simp
    moreover have "elements h1 ?v' = take ?c nb"
      using r(2,3) by (simp add: elements_Ptr [where b = b1])
    ultimately show ?thesis
      using True r(5,7) s c by (simp add: min_def)
  next
    case False
    let ?nb = "take ?s nb @ replicate (?c - ?s) (Obj dflt) @ drop (?s + (?c - ?s)) nb"
    let ?h' = "h1[b1 := Some ?nb]"
    have "construct_range dflt (Ptr b1 ?s) (Ptr b1 (?s + (?c - ?s))) h1 = Inr ?h'"
      using r(3) s c by (intro construct_range_spec) simp_all
    with s have k: "construct_range dflt (Ptr b1 ?s) (Ptr b1 ?c) h1 = Inr ?h'" by simp
    have res: "resize triv dflt count (h, v) = Inr (?h', ?v')"
      using False pre k by simp
    have blk: "block ?h' b1 = Some ?nb" using bl by (simp add: block_update)
    have el: "elements ?h' ?v' = elements h v @ replicate (?c - ?s) (Obj dflt)"
      using r(2,7) blk s c well_formed_elements(1) [OF wf]
      by (simp add: elements_Ptr [where b = b1] min_def)
    have live: "\<forall>k < ?c. ?nb ! k \<noteq> Raw"
    proof (intro allI impI)
      fix k assume k: "k < ?c"
      show "?nb ! k \<noteq> Raw"
      proof (cases "k < ?s")
        case True
        with well_formed_elements(2) [OF wf] have "elements h v ! k \<noteq> Raw" by blast
        with r(7) True have "nb ! k \<noteq> Raw" by (metis nth_take)
        with True s c show ?thesis by (simp add: nth_append)
      next
        case False
        with k have "k - ?s < ?c - ?s" by arith
        with False k s c show ?thesis by (simp add: nth_append)
      qed
    qed
    have "well_formed ?h' ?v'"
      using r(2,4,5) blk s c live
      by (intro well_formedI [where b = b1 and cs = ?nb]) simp_all
    with res el r(5) s c show ?thesis
      using well_formed_elements(1) [OF wf] by simp
  qed
qed

subsection \<open>Copies\<close>

lemma copy_assign_eq: "copy_assign triv this other h = copy_ctor triv other h"
  by (cases this) (simp add: copy_assign_def copy_ctor_def Let_def malloc_def)

lemma copy_ctor_spec:
  assumes wf: "well_formed h other"
  shows "\<exists>h'. copy_ctor triv other h =
           Inr (h', \<lparr>m_data = Ptr (length h) 0, m_size = m_size other,
                     m_capacity = m_size other\<rparr>) \<and>
          length h' = Suc (length h) \<and>
          block h' (length h) = Some (elements h other) \<and>
          (\<forall>a. a < length h \<longrightarrow> block h' a = block h a)"
proof (cases "m_data other")
  case (Addr a)
  with wf have z: "a = 0" "m_size other = 0" by (simp_all add: well_formed_def)
  let ?h' = "h @ [Some []]"
  have "copy_ctor triv other h =
      Inr (?h', \<lparr>m_data = Ptr (length h) 0, m_size = m_size other,
                 m_capacity = m_size other\<rparr>)"
    using Addr z
    by (simp add: copy_ctor_def Let_def malloc_def begin_fv_def end_fv_def copy_range.simps)
  then show ?thesis
    using Addr by (simp add: block_append1 elements_null)
next
  case (Ptr b i)
  with wf obtain cs where cs: "i = 0" "block h b = Some cs"
    "length cs = unat (m_capacity other)" "m_size other \<le> m_capacity other"
    "\<forall>k < unat (m_size other). cs ! k \<noteq> Raw"
    by (rule well_formed_PtrD)
  let ?n = "unat (m_size other)"
  let ?h1 = "h @ [Some (replicate ?n Raw)]"
  let ?h' = "?h1[length h := Some (take ?n cs)]"
  from cs have b: "b < length h" by (auto dest: block_SomeD)
  from cs have n: "?n \<le> length cs" by (simp add: word_le_nat_alt)
  have b1: "block ?h1 b = Some cs" "block ?h1 (length h) = Some (replicate ?n Raw)"
    using cs(2) b by (simp_all add: block_append1)
  have "memcpy (Ptr (length h) 0) (Ptr b 0) ?n ?h1 =
      Inr (?h1[length h := Some (take 0 (replicate ?n Raw) @ take ?n (drop 0 cs) @
             drop (0 + ?n) (replicate ?n Raw))])"
    using b1 b n by (intro memcpy_spec) simp_all
  then have m: "memcpy (Ptr (length h) 0) (Ptr b 0) ?n ?h1 = Inr ?h'" by simp
  have "copy_range (Ptr b 0) (Ptr b (0 + ?n)) (Ptr (length h) 0) ?h1 =
      Inr (?h1[length h := Some (take 0 (replicate ?n Raw) @ take ?n (drop 0 cs) @
             drop (0 + ?n) (replicate ?n Raw))])"
    using b1 b n cs(5) by (intro copy_range_spec) simp_all
  then have c: "copy_range (Ptr b 0) (Ptr b ?n) (Ptr (length h) 0) ?h1 = Inr ?h'" by simp
  have "copy_ctor triv other h =
      Inr (?h', \<lparr>m_data = Ptr (length h) 0, m_size = m_size other,
                 m_capacity = m_size other\<rparr>)"
    using Ptr cs(1) m c
    by (simp add: copy_ctor_def Let_def malloc_def begin_fv_def end_fv_def)
  moreover have "block ?h' (length h) = Some (elements h other)"
    using Ptr cs(1,2) by (simp add: block_update block_append1 elements_Ptr [where b = b])
  moreover have "\<forall>a. a < length h \<longrightarrow> block ?h' a = block h a"
    by (simp add: block_update block_append1)
  ultimately show ?thesis by simp
qed

lemma block_frame_well_formed:
  assumes "well_formed h v" and "\<forall>a. a < length h \<longrightarrow> block h' a = block h a"
  shows "well_formed h' v" and "elements h' v = elements h v"
proof -
  have "well_formed h' v \<and> elements h' v = elements h v"
  proof (cases "m_data v")
    case (Addr a)
    with assms(1) show ?thesis by (simp add: well_formed_def elements_null)
  next
    case (Ptr b i)
    with assms(1) obtain cs where cs: "i = 0" "block h b = Some cs"
      "length cs = unat (m_capacity v)" "m_size v \<le> m_capacity v"
      "\<forall>k < unat (m_size v). cs ! k \<noteq> Raw"
      by (rule well_formed_PtrD)
    from cs have "b < length h" by (auto dest: block_SomeD)
    with assms(2) cs have blk: "block h' b = Some cs" by simp
    have "well_formed h' v"
      using Ptr cs(1) blk cs(3,4,5) by (intro well_formedI [where b = b and cs = cs]) simp_all
    with Ptr cs(1,2) blk show ?thesis by (simp add: elements_Ptr [where b = b])
  qed
  then show "well_formed h' v" and "elements h' v = elements h v" by simp_all
qed

text \<open>
  Claim C7. Copy construction and copy assignment from a well-formed source give a
  destination whose elements are those of the source, in order, in a region of its own,
  with \<open>size()\<close> the source's size and \<open>capacity()\<close> the source's size as well, whatever
  the source's capacity; the source and every other region are left as they were. The
  destination of the assignment is an object other than the source.
\<close>

theorem copy_spec:
  assumes "well_formed h other"
  shows "\<exists>h' this.
           copy_ctor triv other h = Inr (h', this) \<and>
           copy_assign triv old other h = Inr (h', this) \<and>
           size_fv this = size_fv other \<and> capacity this = size_fv other \<and>
           elements h' this = elements h other \<and> well_formed h' this \<and>
           m_data this \<noteq> m_data other \<and> block h (ptr_block (m_data this)) = None \<and>
           elements h' other = elements h other \<and> well_formed h' other \<and>
           (\<forall>a. a < length h \<longrightarrow> block h' a = block h a)"
proof -
  let ?dst = "\<lparr>m_data = Ptr (length h) 0, m_size = m_size other,
                 m_capacity = m_size other\<rparr>"
  from copy_ctor_spec [OF assms, of triv] obtain h' where h':
    "copy_ctor triv other h = Inr (h', ?dst)"
    "length h' = Suc (length h)"
    "block h' (length h) = Some (elements h other)"
    "\<forall>a. a < length h \<longrightarrow> block h' a = block h a"
    by blast
  have len: "length (elements h other) = unat (m_size other)"
    and live: "\<forall>k < unat (m_size other). elements h other ! k \<noteq> Raw"
    using well_formed_elements [OF assms] by simp_all
  have wf': "well_formed h' ?dst"
    using h'(3) len live
    by (intro well_formedI [where b = "length h" and cs = "elements h other"]) simp_all
  have el: "elements h' ?dst = elements h other"
    using h'(3) len by (simp add: elements_Ptr [where b = "length h"])
  have ne: "m_data ?dst \<noteq> m_data other"
  proof
    assume "m_data ?dst = m_data other"
    then have "m_data other = Ptr (length h) 0" by simp
    with assms show False
      by (auto simp: well_formed_def split: option.splits dest: block_SomeD)
  qed
  have fresh: "block h (ptr_block (m_data ?dst)) = None"
    by (simp add: block_def)
  from block_frame_well_formed [OF assms h'(4)] h' wf' el ne fresh
  show ?thesis
    by (intro exI [of _ h'] exI [of _ ?dst])
       (simp add: copy_assign_eq size_fv_def capacity_def)
qed


theorem copy_spec_witness:
  "well_formed [Some [Obj (1::nat), Obj 2, Raw]]
     \<lparr>m_data = Ptr 0 0, m_size = 2, m_capacity = 3\<rparr> \<and>
   copy_ctor False \<lparr>m_data = Ptr 0 0, m_size = 2, m_capacity = 3\<rparr>
       [Some [Obj (1::nat), Obj 2, Raw]] =
     Inr ([Some [Obj 1, Obj 2, Raw], Some [Obj 1, Obj 2]],
          \<lparr>m_data = Ptr 1 0, m_size = 2, m_capacity = 2\<rparr>) \<and>
   copy_assign True fast_vector_default \<lparr>m_data = Ptr 0 0, m_size = 2, m_capacity = 3\<rparr>
       [Some [Obj (1::nat), Obj 2, Raw]] =
     Inr ([Some [Obj 1, Obj 2, Raw], Some [Obj 1, Obj 2]],
          \<lparr>m_data = Ptr 1 0, m_size = 2, m_capacity = 2\<rparr>) \<and>
   elements [Some [Obj (1::nat), Obj 2, Raw], Some [Obj 1, Obj 2]]
       \<lparr>m_data = Ptr 1 0, m_size = 2, m_capacity = 2\<rparr> =
     elements [Some [Obj (1::nat), Obj 2, Raw]]
       \<lparr>m_data = Ptr 0 0, m_size = 2, m_capacity = 3\<rparr>"
proof -
  let ?h = "[Some [Obj (1::nat), Obj 2, Raw]]"
  let ?v = "\<lparr>m_data = Ptr 0 0, m_size = 2, m_capacity = 3\<rparr>"
  have wf: "well_formed ?h ?v" by (simp add: well_formed_def block_def)
  have 1: "copy_ctor False ?v ?h =
      Inr ([Some [Obj 1, Obj 2, Raw], Some [Obj 1, Obj 2]],
           \<lparr>m_data = Ptr 1 0, m_size = 2, m_capacity = 2\<rparr>)"
    by code_simp
  have 2: "copy_assign True fast_vector_default ?v ?h =
      Inr ([Some [Obj 1, Obj 2, Raw], Some [Obj 1, Obj 2]],
           \<lparr>m_data = Ptr 1 0, m_size = 2, m_capacity = 2\<rparr>)"
    by code_simp
  from copy_spec [OF wf, of False fast_vector_default] wf 1 2
  show ?thesis by auto
qed

subsection \<open>Appending an array\<close>

lemma unat_add_small:
  fixes x y :: size_type
  assumes "unat x + unat y \<le> 2 ^ 63"
  shows "unat (x + y) = unat x + unat y"
proof -
  from assms have "unat x + unat y < 2 ^ LENGTH(64)" by simp
  then show ?thesis by (simp only: unat_add_lem)
qed

lemma append_loop_spec:
  assumes "well_formed h v"
    and "block h a = Some cs" and "j + unat count \<le> length cs"
    and "\<forall>k < unat count. cs ! (j + k) \<noteq> Raw"
    and "m_data v \<noteq> Ptr a 0"
    and "i \<le> count"
    and "unat (m_size v) + (unat count - unat i) \<le> 2 ^ 63"
  shows "\<exists>h' v'. append_loop triv (Ptr a j) i count (h, v) = Inr (h', v') \<and>
          well_formed h' v' \<and>
          unat (m_size v') = unat (m_size v) + (unat count - unat i) \<and>
          elements h' v' =
            elements h v @ take (unat count - unat i) (drop (j + unat i) cs) \<and>
          block h' a = Some cs"
  using assms
proof (induction n \<equiv> "unat count - unat i" arbitrary: i h v)
  case 0
  then have "unat count \<le> unat i" by simp
  then have "\<not> i < count" by (simp add: word_less_nat_alt)
  with 0 show ?case
    by (subst append_loop.simps) simp
next
  case (Suc n)
  from Suc.hyps(2) have lt: "i < count" by (simp add: word_less_nat_alt)
  then have ui: "unat (i + 1) = Suc (unat i)" by (rule unat_succ)
  from lt have i1: "i + 1 \<le> count"
    using ui by (simp add: word_le_nat_alt word_less_nat_alt)
  from lt have k: "unat i < unat count" by (simp add: word_less_nat_alt)
  with Suc.prems(3) have inb: "j + unat i < length cs" by simp
  from Suc.prems(4) k obtain x where x: "cs ! (j + unat i) = Obj x"
    by (cases "cs ! (j + unat i)") auto
  from Suc.prems(2) inb x have d: "deref h (Ptr a (j + unat i)) = Inr x"
    by (simp add: deref_def)
  from Suc.prems(7) k have "unat (m_size v) < 2 ^ 63" by simp
  moreover from Suc.prems(1) have "m_size v \<le> m_capacity v"
    by (rule well_formed_size_le)
  ultimately have grow: "m_size v = m_capacity v \<longrightarrow> unat (m_capacity v) < 2 ^ 63"
    by auto
  from Suc.prems(2) have al: "a < length h" by (auto dest: block_SomeD)
  from push_back_spec [OF Suc.prems(1) grow, of triv x]
  obtain h1 v1 where p: "push_back triv x (h, v) = Inr (h1, v1)"
    "well_formed h1 v1" "elements h1 v1 = elements h v @ [Obj x]"
    "unat (m_size v1) = Suc (unat (m_size v))"
    "m_data v1 = m_data v \<or> m_data v1 = Ptr (length h) 0"
    "\<forall>a. a < length h \<longrightarrow> m_data v \<noteq> Ptr a 0 \<longrightarrow> block h1 a = block h a"
    by blast
  from p(6) al Suc.prems(2,5) have blk1: "block h1 a = Some cs" by simp
  from p(5) al Suc.prems(5) have ne1: "m_data v1 \<noteq> Ptr a 0" by auto
  from Suc.hyps(2) ui have n: "n = unat count - unat (i + 1)" by simp
  from Suc.prems(7) p(4) ui k
  have bound1: "unat (m_size v1) + (unat count - unat (i + 1)) \<le> 2 ^ 63" by simp
  from Suc.hyps(1) [OF n p(2) blk1 Suc.prems(3,4) ne1 i1 bound1]
  obtain h' v' where r:
    "append_loop triv (Ptr a j) (i + 1) count (h1, v1) = Inr (h', v')"
    "well_formed h' v'"
    "unat (m_size v') = unat (m_size v1) + (unat count - unat (i + 1))"
    "elements h' v' =
       elements h1 v1 @ take (unat count - unat (i + 1)) (drop (j + unat (i + 1)) cs)"
    "block h' a = Some cs"
    by blast
  have run: "append_loop triv (Ptr a j) i count (h, v) = Inr (h', v')"
    using lt d p(1) r(1) by (subst append_loop.simps) simp
  have "take (Suc n) (drop (j + unat i) cs) =
      cs ! (j + unat i) # take n (drop (Suc (j + unat i)) cs)"
    using inb by (simp add: Cons_nth_drop_Suc [symmetric])
  with r(4) p(3) x n ui Suc.hyps(2)
  have el: "elements h' v' =
      elements h v @ take (unat count - unat i) (drop (j + unat i) cs)"
    by simp
  from r(3) p(4) ui k
  have sz: "unat (m_size v') = unat (m_size v) + (unat count - unat i)" by simp
  from run r(2) sz el r(5) show ?case by blast
qed


lemma append_bulk_spec:
  assumes wf: "well_formed h v"
    and src: "block h a = Some cs" and off: "j + unat count \<le> length cs"
    and live: "\<forall>k < unat count. cs ! (j + k) \<noteq> Raw"
    and ne: "m_data v \<noteq> Ptr a 0"
    and bound: "unat (m_size v) + unat count \<le> 2 ^ 63"
    and fits: "\<not> m_size v + count \<ge> m_capacity v"
  shows "\<exists>h'. append_fv triv (Ptr a j) count (h, v) =
            Inr (h', v\<lparr>m_size := m_size v + count\<rparr>) \<and>
          well_formed h' (v\<lparr>m_size := m_size v + count\<rparr>) \<and>
          elements h' (v\<lparr>m_size := m_size v + count\<rparr>) =
            elements h v @ take (unat count) (drop j cs) \<and>
          block h' a = Some cs"
proof -
  let ?s = "unat (m_size v)" and ?c = "unat count"
  let ?v' = "v\<lparr>m_size := m_size v + count\<rparr>"
  from bound have sum: "unat (m_size v + count) = ?s + ?c" by (rule unat_add_small)
  from fits have "m_size v + count < m_capacity v" by simp
  with sum have lt: "?s + ?c < unat (m_capacity v)" by (simp add: word_less_nat_alt)
  then have "0 < m_capacity v" by (simp add: word_less_nat_alt)
  with wf obtain b where b: "m_data v = Ptr b 0" by (rule well_formed_capacity_pos)
  with wf obtain cv where cv: "block h b = Some cv"
    "length cv = unat (m_capacity v)" "\<forall>k < ?s. cv ! k \<noteq> Raw"
    by (rule well_formed_PtrD)
  from b ne have ab: "a \<noteq> b" by auto
  from cv have bl: "b < length h" by (auto dest: block_SomeD)
  let ?new = "take ?s cv @ take ?c (drop j cs) @ drop (?s + ?c) cv"
  let ?h' = "h[b := Some ?new]"
  have m: "memcpy (Ptr b ?s) (Ptr a j) ?c h = Inr ?h'"
    using src cv(1) ab off lt cv(2) by (intro memcpy_spec) simp_all
  have c: "copy_range (Ptr a j) (Ptr a (j + ?c)) (Ptr b ?s) h = Inr ?h'"
    using src cv(1) ab off lt cv(2) live by (intro copy_range_spec) simp_all
  have run: "append_fv triv (Ptr a j) count (h, v) = Inr (?h', ?v')"
    using fits b m c by (simp add: append_fv_def)
  have blk: "block ?h' b = Some ?new" using bl by (simp add: block_update)
  have len: "length (take ?c (drop j cs)) = ?c" using off by simp
  have el: "elements ?h' ?v' = elements h v @ take ?c (drop j cs)"
    using b blk cv(1) sum lt cv(2) len
    by (simp add: elements_Ptr [where b = b])
  have le: "m_size ?v' \<le> m_capacity ?v'"
    using sum lt by (simp add: word_le_nat_alt)
  have lv: "\<forall>k < unat (m_size ?v'). ?new ! k \<noteq> Raw"
  proof (intro allI impI)
    fix k assume "k < unat (m_size ?v')"
    with sum have k: "k < ?s + ?c" by simp
    show "?new ! k \<noteq> Raw"
    proof (cases "k < ?s")
      case True
      with cv(3) lt cv(2) show ?thesis by (simp add: nth_append)
    next
      case False
      with k have ks: "k - ?s < ?c" by arith
      with live have "cs ! (j + (k - ?s)) \<noteq> Raw" by blast
      with False ks lt cv(2) off show ?thesis by (simp add: nth_append)
    qed
  qed
  have "well_formed ?h' ?v'"
    using b blk le lv lt cv(2) off
    by (intro well_formedI [where b = b and cs = ?new]) simp_all
  moreover have "block ?h' a = Some cs"
    using src ab by (simp add: block_update)
  ultimately show ?thesis using run el by blast
qed

text \<open>
  Claim C3, as the code has it. Appending \<open>count\<close> elements of an array that lies
  outside the buffer's own region to a well-formed buffer of size \<open>s\<close> succeeds, so no
  write falls outside the region; the buffer then has \<open>size() == s + count\<close> within its
  capacity, its first \<open>s\<close> elements as before and the array's elements after them in
  order, and the array is untouched. The sizes are those a program can hold: \<open>s + count\<close>
  at most \<open>2 ^ 63\<close>. Three elements appended to a buffer of size 2 and capacity 4 give
  size 5 and capacity 9.
\<close>

theorem append_spec:
  assumes "well_formed h v"
    and "block h a = Some cs" and "j + unat count \<le> length cs"
    and "\<forall>k < unat count. cs ! (j + k) \<noteq> Raw"
    and "m_data v \<noteq> Ptr a 0"
    and "unat (size_fv v) + unat count \<le> 2 ^ 63"
  shows "\<exists>h' v'. append_fv triv (Ptr a j) count (h, v) = Inr (h', v') \<and>
          well_formed h' v' \<and>
          unat (size_fv v') = unat (size_fv v) + unat count \<and>
          size_fv v' \<le> capacity v' \<and>
          unat (size_fv v) + unat count \<le> unat (capacity v') \<and>
          elements h' v' = elements h v @ take (unat count) (drop j cs) \<and>
          block h' a = Some cs"
proof -
  have "\<exists>h' v'. append_fv triv (Ptr a j) count (h, v) = Inr (h', v') \<and>
          well_formed h' v' \<and>
          unat (m_size v') = unat (m_size v) + unat count \<and>
          elements h' v' = elements h v @ take (unat count) (drop j cs) \<and>
          block h' a = Some cs"
  proof (cases "m_size v + count \<ge> m_capacity v")
    case True
    from assms(6) have "unat (m_size v) + (unat count - unat (0 :: size_type)) \<le> 2 ^ 63"
      by (simp add: size_fv_def)
    from append_loop_spec [OF assms(1-5) _ this, of triv] True
    show ?thesis by (simp add: append_fv_def)
  next
    case False
    from assms(6) have b: "unat (m_size v) + unat count \<le> 2 ^ 63"
      by (simp add: size_fv_def)
    from append_bulk_spec [OF assms(1-5) b False, of triv] unat_add_small [OF b]
    show ?thesis by auto
  qed
  then obtain h' v' where r: "append_fv triv (Ptr a j) count (h, v) = Inr (h', v')"
    "well_formed h' v'" "unat (m_size v') = unat (m_size v) + unat count"
    "elements h' v' = elements h v @ take (unat count) (drop j cs)"
    "block h' a = Some cs"
    by blast
  from r(2) have le: "m_size v' \<le> m_capacity v'" by (rule well_formed_size_le)
  then have "unat (m_size v') \<le> unat (m_capacity v')" by (simp add: word_le_nat_alt)
  with r le show ?thesis
    by (intro exI [of _ h'] exI [of _ v']) (simp add: size_fv_def capacity_def)
qed


theorem append_spec_witness:
  "well_formed [Some [Obj (1::nat), Obj 2, Raw, Raw], Some [Obj 7, Obj 8, Obj 9]]
     \<lparr>m_data = Ptr 0 0, m_size = 2, m_capacity = 4\<rparr> \<and>
   append_fv True (Ptr 1 0) 3
     ([Some [Obj (1::nat), Obj 2, Raw, Raw], Some [Obj 7, Obj 8, Obj 9]],
      \<lparr>m_data = Ptr 0 0, m_size = 2, m_capacity = 4\<rparr>) =
     Inr ([None, Some [Obj 7, Obj 8, Obj 9],
           Some [Obj 1, Obj 2, Obj 7, Obj 8, Obj 9, Raw, Raw, Raw, Raw]],
          \<lparr>m_data = Ptr 2 0, m_size = 5, m_capacity = 9\<rparr>) \<and>
   size_fv \<lparr>m_data = Ptr 2 0, m_size = 5, m_capacity = 9\<rparr> = 5 \<and>
   capacity \<lparr>m_data = Ptr 2 0, m_size = 5, m_capacity = 9\<rparr> \<ge> 5"
proof -
  let ?h = "[Some [Obj (1::nat), Obj 2, Raw, Raw], Some [Obj 7, Obj 8, Obj 9]]"
  let ?v = "\<lparr>m_data = Ptr 0 0, m_size = 2, m_capacity = 4\<rparr>"
  have wf: "well_formed ?h ?v" by (simp add: well_formed_def block_def)
  have src: "block ?h 1 = Some [Obj 7, Obj 8, Obj 9]" by (simp add: block_def)
  have off: "0 + unat (3 :: size_type) \<le> length [Obj (7::nat), Obj 8, Obj 9]" by simp
  have live: "\<forall>k < unat (3 :: size_type). [Obj (7::nat), Obj 8, Obj 9] ! (0 + k) \<noteq> Raw"
    by (simp add: nth_Cons split: nat.splits)
  have ne: "m_data ?v \<noteq> Ptr 1 0" by simp
  have bound: "unat (size_fv ?v) + unat (3 :: size_type) \<le> 2 ^ 63"
    by (simp add: size_fv_def)
  have run: "append_fv True (Ptr 1 0) 3 (?h, ?v) =
      Inr ([None, Some [Obj 7, Obj 8, Obj 9],
            Some [Obj 1, Obj 2, Obj 7, Obj 8, Obj 9, Raw, Raw, Raw, Raw]],
           \<lparr>m_data = Ptr 2 0, m_size = 5, m_capacity = 9\<rparr>)"
    by code_simp
  from append_spec [OF wf src off live ne bound, of True] wf run
  show ?thesis by (simp add: size_fv_def capacity_def)
qed

subsection \<open>Erasing from a buffer of trivial elements\<close>

lemma find_item_spec:
  assumes "block h b = Some cs" and "i + n \<le> length cs"
    and "\<forall>k < n. cs ! (i + k) \<noteq> Raw"
  shows "find_item (Ptr b i) (Ptr b (i + n)) val h =
    Inr (Ptr b (i + length (takeWhile (\<lambda>c. c \<noteq> Obj val) (take n (drop i cs)))))"
  using assms
proof (induction n arbitrary: i)
  case 0
  then show ?case by (subst find_item.simps) simp
next
  case (Suc n)
  from Suc.prems have i: "i < length cs" by simp
  from Suc.prems(3) have "cs ! (i + 0) \<noteq> Raw" by blast
  then obtain x where x: "cs ! i = Obj x" by (cases "cs ! i") auto
  have split: "take (Suc n) (drop i cs) = cs ! i # take n (drop (Suc i) cs)"
    using i by (simp add: Cons_nth_drop_Suc [symmetric])
  show ?case
  proof (cases "x = val")
    case True
    with Suc.prems(1) i x split show ?thesis
      by (subst find_item.simps) (simp add: deref_def)
  next
    case False
    have live: "\<forall>k < n. cs ! (Suc i + k) \<noteq> Raw"
    proof (intro allI impI)
      fix k assume "k < n"
      with Suc.prems(3) have "cs ! (i + Suc k) \<noteq> Raw" by (metis Suc_less_eq)
      then show "cs ! (Suc i + k) \<noteq> Raw" by simp
    qed
    have "find_item (Ptr b i) (Ptr b (i + Suc n)) val h =
        find_item (Ptr b (Suc i)) (Ptr b (Suc i + n)) val h"
      using False Suc.prems(1) i x
      by (subst find_item.simps) (simp add: deref_def)
    also have "\<dots> = Inr (Ptr b (Suc i +
        length (takeWhile (\<lambda>c. c \<noteq> Obj val) (take n (drop (Suc i) cs)))))"
      using Suc.prems(2) live by (intro Suc.IH Suc.prems(1)) simp_all
    finally show ?thesis using False x split by simp
  qed
qed

lemma remove1_index:
  "remove1 x xs =
     take (length (takeWhile (\<lambda>y. y \<noteq> x) xs)) xs @
     drop (Suc (length (takeWhile (\<lambda>y. y \<noteq> x) xs))) xs"
  by (induction xs) auto

lemma takeWhile_length_le_iff:
  "length (takeWhile (\<lambda>y. y \<noteq> x) xs) < length xs \<longleftrightarrow> x \<in> set xs"
  by (induction xs) auto


lemma well_formed_set_iff:
  assumes "m_data v = Ptr b 0" and "block h b = Some cs"
    and "length cs = unat (m_capacity v)" and "m_size v \<le> m_capacity v"
  shows "well_formed h v \<longleftrightarrow> Raw \<notin> set (elements h v)"
  using assms by (auto simp: well_formed_def elements_Ptr [where b = b] list_all_iff)

lemma unat_pred:
  fixes n :: size_type
  assumes "0 < unat n"
  shows "unat (n - 1) = unat n - 1"
proof -
  from assms have "1 \<le> n" by (simp add: word_le_nat_alt)
  then have "unat (n - 1) = unat n - unat (1 :: size_type)" by (rule unat_sub)
  then show ?thesis by simp
qed

lemma unat_ptr_diff:
  assumes "p < s" and "s < 2 ^ 64"
  shows "unat (ptr_diff (Ptr b s) (Ptr b p) - 1) = s - p - 1"
proof -
  from assms(1) have "(word_of_nat s :: size_type) - word_of_nat p - 1 =
      word_of_nat (s - p - 1)"
    by (simp add: of_nat_diff)
  moreover from assms have "s - p - 1 < 2 ^ 64" by simp
  ultimately show ?thesis by (simp add: unat_of_nat)
qed

lemma erase_trivial_spec:
  fixes h :: "'a heap" and v :: fast_vector and val :: 'a
  assumes wf: "well_formed h v"
  defines "p \<equiv> length (takeWhile (\<lambda>c. c \<noteq> Obj val) (elements h v))"
  shows "\<exists>h' v'. erase True val (h, v) = Inr (h', v') \<and> well_formed h' v' \<and>
          m_capacity v' = m_capacity v \<and>
          elements h' v' = take p (elements h v) @ drop (Suc p) (elements h v) \<and>
          (Obj val \<notin> set (elements h v) \<longrightarrow> h' = h \<and> v' = v) \<and>
          (Obj val \<in> set (elements h v) \<longrightarrow> unat (m_size v') = unat (m_size v) - 1)"
proof (cases "m_data v")
  case (Addr a)
  with wf have z: "a = 0" "m_size v = 0" by (simp_all add: well_formed_def)
  with Addr have "erase True val (h, v) = Inr (h, v)"
    by (simp add: erase_def begin_fv_def end_fv_def find_item.simps)
  with wf Addr show ?thesis by (simp add: elements_null)
next
  case (Ptr b i)
  with wf obtain cs where cs: "i = 0" "block h b = Some cs"
    "length cs = unat (m_capacity v)" "m_size v \<le> m_capacity v"
    "\<forall>k < unat (m_size v). cs ! k \<noteq> Raw"
    by (rule well_formed_PtrD)
  let ?s = "unat (m_size v)"
  let ?E = "elements h v"
  from cs have s: "?s \<le> length cs" by (simp add: word_le_nat_alt)
  from Ptr cs have E: "?E = take ?s cs" by (simp add: elements_Ptr)
  from s E have lenE: "length ?E = ?s" by simp
  have ps: "p \<le> ?s" unfolding p_def using length_takeWhile_le [of _ ?E] lenE by simp
  have "find_item (Ptr b 0) (Ptr b (0 + ?s)) val h =
      Inr (Ptr b (0 + length (takeWhile (\<lambda>c. c \<noteq> Obj val) (take ?s (drop 0 cs)))))"
    using cs(2) s cs(5) by (intro find_item_spec) simp_all
  with E have f: "find_item (Ptr b 0) (Ptr b ?s) val h = Inr (Ptr b p)"
    by (simp add: p_def)
  have mem: "p < ?s \<longleftrightarrow> Obj val \<in> set ?E"
    unfolding p_def using takeWhile_length_le_iff [of "Obj val" ?E] lenE by simp
  show ?thesis
  proof (cases "p < ?s")
    case False
    with ps have "p = ?s" by simp
    with f Ptr cs(1) have "erase True val (h, v) = Inr (h, v)"
      by (simp add: erase_def begin_fv_def end_fv_def)
    with wf False mem lenE \<open>p = ?s\<close> show ?thesis by simp
  next
    case True
    let ?v' = "v\<lparr>m_size := m_size v - 1\<rparr>"
    from True have pos: "0 < ?s" by simp
    then have s1: "unat (m_size v - 1) = ?s - 1" by (rule unat_pred)
    have le': "m_size ?v' \<le> m_capacity ?v'"
      using s1 s cs(3) by (simp add: word_le_nat_alt)
    have sub: "set (take p ?E @ drop (Suc p) ?E) \<subseteq> set ?E"
      using set_take_subset [of p ?E] set_drop_subset [of "Suc p" ?E] by auto
    from wf Ptr cs have rawE: "Raw \<notin> set ?E"
      by (simp add: well_formed_set_iff [where b = b and cs = cs])
    have res: "\<exists>h'. erase True val (h, v) = Inr (h', ?v') \<and>
        (\<exists>cs'. block h' b = Some cs' \<and> length cs' = length cs \<and>
           take (?s - 1) cs' = take p ?E @ drop (Suc p) ?E)"
    proof (cases "p < ?s - 1")
      case True
      let ?n = "?s - p - 1"
      let ?cs' = "take p cs @ take ?n (drop (Suc p) cs) @ drop (p + ?n) cs"
      let ?h' = "h[b := Some ?cs']"
      from \<open>p < ?s\<close> have cnt: "unat (ptr_diff (Ptr b ?s) (Ptr b p) - 1) = ?n"
        using unat_size_bound [of "m_size v"] by (intro unat_ptr_diff) simp_all
      have m: "memcpy (Ptr b p) (Ptr b (Suc p)) ?n h = Inr ?h'"
        using cs(2) s \<open>p < ?s\<close> by (intro memcpy_shift_down) simp_all
      have "erase True val (h, v) = Inr (?h', ?v')"
        using f Ptr cs(1) \<open>p < ?s\<close> True cnt m
        by (simp add: erase_def begin_fv_def end_fv_def Let_def)
      moreover have "block ?h' b = Some ?cs'"
        using cs(2) by (auto simp: block_update dest: block_SomeD)
      moreover have "length ?cs' = length cs" using s \<open>p < ?s\<close> by simp
      moreover have "take (?s - 1) ?cs' = take p ?E @ drop (Suc p) ?E"
      proof -
        have l1: "length (take p cs) = p" using s \<open>p < ?s\<close> by simp
        have l2: "length (take ?n (drop (Suc p) cs)) = ?n" using s \<open>p < ?s\<close> by simp
        have sn: "?s - 1 = p + ?n" using \<open>p < ?s\<close> by simp
        have "take (p + ?n) ?cs' = take p cs @ take ?n (drop (Suc p) cs)"
          using l1 l2 by simp
        moreover have "take p ?E @ drop (Suc p) ?E = take p cs @ take ?n (drop (Suc p) cs)"
          using E \<open>p < ?s\<close> by (simp add: drop_take min_def)
        ultimately show ?thesis using sn by simp
      qed
      ultimately show ?thesis by blast
    next
      case False
      with \<open>p < ?s\<close> have pl: "p = ?s - 1" by simp
      have "erase True val (h, v) = Inr (h, ?v')"
        using f Ptr cs(1) \<open>p < ?s\<close> False
        by (simp add: erase_def begin_fv_def end_fv_def)
      moreover have "take (?s - 1) cs = take p ?E @ drop (Suc p) ?E"
        using E s pl pos by (simp add: min_def)
      ultimately show ?thesis using cs(2) by blast
    qed
    then obtain h' cs' where r: "erase True val (h, v) = Inr (h', ?v')"
      "block h' b = Some cs'" "length cs' = length cs"
      "take (?s - 1) cs' = take p ?E @ drop (Suc p) ?E"
      by blast
    have el: "elements h' ?v' = take p ?E @ drop (Suc p) ?E"
      using Ptr cs(1) r(2,4) s1 by (simp add: elements_Ptr [where b = b])
    with sub rawE have "Raw \<notin> set (elements h' ?v')" by auto
    with Ptr cs(1,3) r(2,3) le' have "well_formed h' ?v'"
      by (simp add: well_formed_set_iff [where b = b and cs = cs'])
    with r(1) el True mem s1 show ?thesis by simp
  qed
qed


text \<open>
  With a trivial element type \<^verbatim>\<open>erase\<close> removes the first element equal to \<open>val\<close>:
  the others keep their order, the size drops by one and the capacity stays; a value that
  does not occur leaves heap and buffer as they were. The shift relies on \<^verbatim>\<open>memcpy\<close>
  copying in ascending order, source and destination overlapping.
\<close>

lemma erase_trivial_remove1:
  fixes h :: "'a heap" and v :: fast_vector and val :: 'a
  assumes wf: "well_formed h v" and xs: "elements h v = map Obj xs"
  shows "\<exists>h' v'. erase True val (h, v) = Inr (h', v') \<and> well_formed h' v' \<and>
          m_capacity v' = m_capacity v \<and>
          elements h' v' = map Obj (remove1 val xs) \<and>
          (val \<notin> set xs \<longrightarrow> h' = h \<and> v' = v) \<and>
          (val \<in> set xs \<longrightarrow> unat (m_size v') = unat (m_size v) - 1)"
proof -
  let ?p = "length (takeWhile (\<lambda>y. y \<noteq> val) xs)"
  have "takeWhile (\<lambda>c. c \<noteq> Obj val) (map Obj xs) =
      map Obj (takeWhile (\<lambda>y. y \<noteq> val) xs)"
    by (simp add: takeWhile_map comp_def)
  with xs have p: "length (takeWhile (\<lambda>c. c \<noteq> Obj val) (elements h v)) = ?p"
    by simp
  have "take ?p (map Obj xs) @ drop (Suc ?p) (map Obj xs) = map Obj (remove1 val xs)"
    by (simp add: remove1_index [of val xs] take_map drop_map)
  moreover have "Obj val \<in> set (map Obj xs) \<longleftrightarrow> val \<in> set xs" by auto
  ultimately show ?thesis
    using erase_trivial_spec [OF wf, of val] p xs by simp
qed

subsection \<open>\<^verbatim>\<open>emplace_back\<close>\<close>

lemma emplace_back_eq: "emplace_back val s = push_back False val s"
  by (simp add: emplace_back_def push_back_def)

text \<open>
  Where the growth request wraps around: a full buffer of capacity \<open>2 ^ 63\<close> or more.
  Below that, \<open>push_back_spec\<close> shows that the request exceeds the capacity.
\<close>

lemma growth_request_wraps:
  assumes "m_size v = m_capacity v" and "2 ^ 63 \<le> unat (m_capacity v)"
  shows "push_back triv x (h, v) = Inl Assert_capacity"
    and "emplace_back x (h, v) = Inl Assert_capacity"
proof -
  let ?c = "m_capacity v"
  have "unat (?c * 2 + 1) = (unat ?c * 2 + 1) mod 2 ^ 64"
    by (simp add: unat_word_ariths mod_simps)
  also have "\<dots> = unat ?c * 2 + 1 - 2 ^ 64"
  proof -
    from assms(2) unat_size_bound [of ?c]
    have "2 ^ 64 \<le> unat ?c * 2 + 1" "unat ?c * 2 + 1 < 2 * 2 ^ 64" by simp_all
    then show ?thesis by (simp add: mod_if)
  qed
  also have "\<dots> \<le> unat ?c"
    using assms(2) unat_size_bound [of ?c] by simp
  finally have "\<not> ?c < ?c * grow_factor + 1"
    by (simp add: word_less_nat_alt grow_factor_def)
  with assms(1) show "push_back triv x (h, v) = Inl Assert_capacity"
    by (simp add: push_back_def reserve_def)
  then show "emplace_back x (h, v) = Inl Assert_capacity"
    by (simp add: emplace_back_eq push_back_def reserve_def assms(1)
          \<open>\<not> ?c < ?c * grow_factor + 1\<close>)
qed

subsection \<open>Resizing with the byte count of the request\<close>

lemma request_slots_no_wrap:
  assumes "sz \<noteq> 0" and "unat sz * unat n < 2 ^ 64"
  shows "request_slots sz n = unat n"
proof -
  from assms(2) have "unat sz * unat n < 2 ^ LENGTH(64)" by simp
  then have "unat (sz * n) = unat sz * unat n" by (simp only: unat_mult_lem)
  moreover from assms(1) have "0 < unat sz" by (simp add: unat_gt_0)
  ultimately show ?thesis by (simp add: request_slots_def)
qed

lemma reserve_sized_no_wrap:
  assumes "sz \<noteq> 0" and "unat sz * unat new_cap < 2 ^ 64"
  shows "reserve_sized sz triv new_cap s = reserve triv new_cap s"
  unfolding reserve_sized_def reserve_def request_slots_no_wrap [OF assms] ..

lemma resize_sized_no_wrap:
  assumes "sz \<noteq> 0"
    and "m_capacity (snd s) < count \<longrightarrow> unat sz * unat count < 2 ^ 64"
  shows "resize_sized sz triv dflt count s = resize triv dflt count s"
  using assms by (simp add: resize_sized_def resize_def reserve_sized_no_wrap)

text \<open>
  Claim C8, as the code has it. On a well-formed buffer, \<^verbatim>\<open>resize(k)\<close> with \<open>k < size()\<close>
  leaves exactly the first \<open>k\<close> elements, and with \<open>k = size()\<close> it changes nothing. With
  \<open>k > size()\<close> it keeps the elements there were, sets \<open>size() == k\<close> within the capacity,
  and default-initializes the slots from the old size up to \<open>k\<close> (for a non-trivial element
  type each holds the default-constructed object, and for a trivial one
  default-initialization writes nothing), provided that the byte count
  \<^verbatim>\<open>sizeof(T) * k\<close> of the reallocation, made when \<open>k > capacity()\<close>, does not wrap around.
\<close>

theorem resize_sized_spec:
  assumes "well_formed h v" and "sz \<noteq> 0"
  shows "(count = size_fv v \<longrightarrow> resize_sized sz triv dflt count (h, v) = Inr (h, v)) \<and>
         (count < size_fv v \<longrightarrow>
            (\<exists>h'. resize_sized sz triv dflt count (h, v) = Inr (h', v\<lparr>m_size := count\<rparr>) \<and>
                  well_formed h' (v\<lparr>m_size := count\<rparr>) \<and>
                  elements h' (v\<lparr>m_size := count\<rparr>) =
                    take (unat count) (elements h v))) \<and>
         (count > size_fv v \<longrightarrow>
          (capacity v < count \<longrightarrow> unat sz * unat count < 2 ^ 64) \<longrightarrow>
            (\<exists>h' v'. resize_sized sz triv dflt count (h, v) = Inr (h', v') \<and>
                  size_fv v' = count \<and> count \<le> capacity v' \<and>
                  length (elements h' v') = unat count \<and>
                  take (unat (size_fv v)) (elements h' v') = elements h v \<and>
                  (\<not> triv \<longrightarrow> well_formed h' v' \<and>
                     elements h' v' =
                       elements h v @
                       replicate (unat count - unat (size_fv v)) (Obj dflt))))"
proof (intro conjI impI)
  assume "count = size_fv v"
  then show "resize_sized sz triv dflt count (h, v) = Inr (h, v)"
    by (simp add: resize_sized_def size_fv_def)
next
  assume lt: "count < size_fv v"
  from assms(1) have "m_size v \<le> m_capacity v" by (rule well_formed_size_le)
  with lt have "\<not> m_capacity v < count" by (simp add: size_fv_def)
  with assms(2) have "resize_sized sz triv dflt count (h, v) = resize triv dflt count (h, v)"
    by (intro resize_sized_no_wrap) simp_all
  with resize_shrink [OF assms(1), of count triv dflt] lt
  show "\<exists>h'. resize_sized sz triv dflt count (h, v) = Inr (h', v\<lparr>m_size := count\<rparr>) \<and>
      well_formed h' (v\<lparr>m_size := count\<rparr>) \<and>
      elements h' (v\<lparr>m_size := count\<rparr>) = take (unat count) (elements h v)"
    by (simp add: size_fv_def)
next
  assume gt: "size_fv v < count"
    and fits: "capacity v < count \<longrightarrow> unat sz * unat count < 2 ^ 64"
  from assms(2) fits
  have "resize_sized sz triv dflt count (h, v) = resize triv dflt count (h, v)"
    by (intro resize_sized_no_wrap) (simp_all add: capacity_def)
  with resize_grow [OF assms(1), of count triv dflt] gt
  show "\<exists>h' v'. resize_sized sz triv dflt count (h, v) = Inr (h', v') \<and>
      size_fv v' = count \<and> count \<le> capacity v' \<and>
      length (elements h' v') = unat count \<and>
      take (unat (size_fv v)) (elements h' v') = elements h v \<and>
      (\<not> triv \<longrightarrow> well_formed h' v' \<and>
         elements h' v' =
           elements h v @ replicate (unat count - unat (size_fv v)) (Obj dflt))"
    by (simp add: size_fv_def capacity_def)
qed

theorem resize_sized_spec_witness:
  "well_formed [Some [Obj (1::nat), Obj 2, Obj 3]]
     \<lparr>m_data = Ptr 0 0, m_size = 3, m_capacity = 3\<rparr> \<and>
   (4 :: size_type) \<noteq> 0 \<and>
   1 < size_fv \<lparr>m_data = Ptr 0 0, m_size = 3, m_capacity = 3\<rparr> \<and>
   5 > size_fv \<lparr>m_data = Ptr 0 0, m_size = 3, m_capacity = 3\<rparr> \<and>
   unat (4 :: size_type) * unat (5 :: size_type) < 2 ^ 64 \<and>
   resize_sized 4 False 7 1 ([Some [Obj (1::nat), Obj 2, Obj 3]],
       \<lparr>m_data = Ptr 0 0, m_size = 3, m_capacity = 3\<rparr>) =
     Inr ([Some [Obj 1, Raw, Raw]], \<lparr>m_data = Ptr 0 0, m_size = 1, m_capacity = 3\<rparr>) \<and>
   resize_sized 4 False 7 5 ([Some [Obj (1::nat), Obj 2, Obj 3]],
       \<lparr>m_data = Ptr 0 0, m_size = 3, m_capacity = 3\<rparr>) =
     Inr ([None, Some [Obj 1, Obj 2, Obj 3, Obj 7, Obj 7]],
          \<lparr>m_data = Ptr 1 0, m_size = 5, m_capacity = 5\<rparr>) \<and>
   elements [None, Some [Obj (1::nat), Obj 2, Obj 3, Obj 7, Obj 7]]
       \<lparr>m_data = Ptr 1 0, m_size = 5, m_capacity = 5\<rparr> =
     elements [Some [Obj (1::nat), Obj 2, Obj 3]]
       \<lparr>m_data = Ptr 0 0, m_size = 3, m_capacity = 3\<rparr> @ replicate 2 (Obj 7)"
proof -
  let ?h = "[Some [Obj (1::nat), Obj 2, Obj 3]]"
  let ?v = "\<lparr>m_data = Ptr 0 0, m_size = 3, m_capacity = 3\<rparr>"
  have wf: "well_formed ?h ?v" by (simp add: well_formed_def block_def)
  have sz: "(4 :: size_type) \<noteq> 0" by simp
  have 1: "resize_sized 4 False 7 1 (?h, ?v) =
      Inr ([Some [Obj 1, Raw, Raw]], \<lparr>m_data = Ptr 0 0, m_size = 1, m_capacity = 3\<rparr>)"
    by code_simp
  have 2: "resize_sized 4 False 7 5 (?h, ?v) =
      Inr ([None, Some [Obj 1, Obj 2, Obj 3, Obj 7, Obj 7]],
           \<lparr>m_data = Ptr 1 0, m_size = 5, m_capacity = 5\<rparr>)"
    by code_simp
  from resize_sized_spec [OF wf sz, of 1 False 7] resize_sized_spec [OF wf sz, of 5 False 7]
    wf 1 2
  show ?thesis by (simp add: size_fv_def)
qed

text \<open>
  Claim C8 as stated covers every count. For a buffer of three 4-byte elements,
  \<^verbatim>\<open>resize(2^62 + 1)\<close> asks for \<open>4 * (2 ^ 62 + 1)\<close> bytes, which is 4 in \<^verbatim>\<open>size_t\<close>: the
  region that comes back holds one slot, \<^verbatim>\<open>size()\<close> is \<open>2 ^ 62 + 1\<close>, and of the three
  elements only the first is left.
\<close>

theorem resize_sized_counterexample:
  "resize_sized 4 True (0::nat) (2 ^ 62 + 1)
     ([Some [Obj 1, Obj 2, Obj 3]], \<lparr>m_data = Ptr 0 0, m_size = 3, m_capacity = 3\<rparr>) =
     Inr ([None, Some [Obj 1]],
          \<lparr>m_data = Ptr 1 0, m_size = 2 ^ 62 + 1, m_capacity = 2 ^ 62 + 1\<rparr>) \<and>
   take 3 (elements [None, Some [Obj (1::nat)]]
          \<lparr>m_data = Ptr 1 0, m_size = 2 ^ 62 + 1, m_capacity = 2 ^ 62 + 1\<rparr>) \<noteq>
     elements [Some [Obj (1::nat), Obj 2, Obj 3]]
       \<lparr>m_data = Ptr 0 0, m_size = 3, m_capacity = 3\<rparr>"
  by (simp add: resize_sized_def reserve_sized_def request_slots_def block_def
        elements_def region_def size_fv_def begin_fv_def)


subsection \<open>Appending a buffer's own elements\<close>

text \<open>
  Claim C3 as stated covers every source array. A full buffer holding 1, 2, 3 that is
  asked to append its own three elements, \<^verbatim>\<open>v.append(v.data(), 3)\<close>, grows at the first
  \<^verbatim>\<open>push_back\<close>: the region the array lies in is released, and the next element is read
  from it. This is so for a trivial and for a non-trivial element type.
\<close>

theorem append_own_elements_counterexample:
  "and_then (push_all True [1::nat, 2, 3] ([], fast_vector_default))
     (\<lambda>(h, v). append_fv True (m_data v) 3 (h, v)) = Inl Bad_access \<and>
   and_then (push_all False [1::nat, 2, 3] ([], fast_vector_default))
     (\<lambda>(h, v). append_fv False (m_data v) 3 (h, v)) = Inl Bad_access"
  by code_simp

end
